theory Spec2Isabelle
  imports Main "HOL-Library.Char_ord" "HOL-Library.List_Lexorder"
begin

section \<open>Strings as Python sees them\<close>

text \<open>
  A Python \<^verbatim>\<open>str\<close> is modelled as a \<^typ>\<open>string\<close>. A \<^typ>\<open>char\<close> is a code point
  from 0 to 255 (the ASCII range and the Latin-1 supplement), and the character tests
  below are those of Python on these code points: \<^verbatim>\<open>str.isspace\<close>, \<^verbatim>\<open>str.lower\<close> and the
  classes \<^verbatim>\<open>\s\<close>, \<^verbatim>\<open>\d\<close>, \<^verbatim>\<open>\w\<close> of \<^verbatim>\<open>re\<close> on \<^verbatim>\<open>str\<close> patterns. A text with a code point above
  255 has no counterpart in the model.
\<close>

definition nl :: char where
  "nl = CHR 0x0A"

definition cr :: char where
  "cr = CHR 0x0D"

definition is_digit :: "char \<Rightarrow> bool" where
  "is_digit c = (let n = (of_char c :: nat) in 48 \<le> n \<and> n \<le> 57)"

definition is_upper :: "char \<Rightarrow> bool" where
  "is_upper c = (let n = (of_char c :: nat) in 65 \<le> n \<and> n \<le> 90)"

definition is_lower :: "char \<Rightarrow> bool" where
  "is_lower c = (let n = (of_char c :: nat) in 97 \<le> n \<and> n \<le> 122)"

text \<open>
  \<^verbatim>\<open>str.isspace\<close>, the characters removed by \<^verbatim>\<open>str.strip()\<close> and the class \<^verbatim>\<open>\s\<close>: tab, LF,
  VT, FF, CR, FS, GS, RS, US, space, and above the ASCII range NEL (U+0085) and the
  no-break space (U+00A0).
\<close>

definition is_space :: "char \<Rightarrow> bool" where
  "is_space c = (let n = (of_char c :: nat) in
                   (9 \<le> n \<and> n \<le> 13) \<or> (28 \<le> n \<and> n \<le> 32) \<or> n = 133 \<or> n = 160)"

text \<open>
  The alphanumeric characters of the Latin-1 supplement (\<^verbatim>\<open>str.isalnum\<close> on 128 to 255):
  the ordinal indicators U+00AA and U+00BA, the micro sign U+00B5, the superscript digits
  U+00B2, U+00B3 and U+00B9, the fractions U+00BC to U+00BE, and the letters U+00C0 to
  U+00FF without the multiplication sign U+00D7 and the division sign U+00F7.
\<close>

definition is_latin1_alnum :: "char \<Rightarrow> bool" where
  "is_latin1_alnum c = (let n = (of_char c :: nat) in
                          n = 170 \<or> n = 178 \<or> n = 179 \<or> n = 181 \<or> n = 185 \<or> n = 186 \<or>
                          (188 \<le> n \<and> n \<le> 190) \<or> (192 \<le> n \<and> n \<le> 214) \<or>
                          (216 \<le> n \<and> n \<le> 246) \<or> (248 \<le> n \<and> n \<le> 255))"

text \<open>
  The class \<^verbatim>\<open>\w\<close>, which also decides the word boundary \<^verbatim>\<open>\b\<close>: the alphanumeric
  characters and the underscore.
\<close>

definition is_word :: "char \<Rightarrow> bool" where
  "is_word c = (is_digit c \<or> is_upper c \<or> is_lower c \<or> c = CHR ''_'' \<or> is_latin1_alnum c)"

text \<open>
  \<^verbatim>\<open>str.lower\<close> on one character: the letters \<^verbatim>\<open>A-Z\<close> and the upper-case letters U+00C0 to
  U+00DE of the Latin-1 supplement (U+00D7 is the multiplication sign) move 32 code
  points up. \<open>upper_char\<close> is used for the ranges \<^verbatim>\<open>A-Z\<close> and \<^verbatim>\<open>a-z\<close> under
  \<^verbatim>\<open>re.IGNORECASE\<close> only; no character above the ASCII range has a lower-case or an
  upper-case form in these ranges, so it is the ASCII letters that it moves.
\<close>

definition is_latin1_upper :: "char \<Rightarrow> bool" where
  "is_latin1_upper c = (let n = (of_char c :: nat) in 192 \<le> n \<and> n \<le> 222 \<and> n \<noteq> 215)"

definition lower_char :: "char \<Rightarrow> char" where
  "lower_char c = (if is_upper c \<or> is_latin1_upper c then char_of ((of_char c :: nat) + 32) else c)"

definition upper_char :: "char \<Rightarrow> char" where
  "upper_char c = (if is_lower c then char_of ((of_char c :: nat) - 32) else c)"

text \<open>The same tests on the eight bits of a character, for evaluation.\<close>

lemma is_digit_code [code]:
  "is_digit (Char b0 b1 b2 b3 b4 b5 b6 b7) =
     (\<not> b7 \<and> \<not> b6 \<and> b5 \<and> b4 \<and> (\<not> b3 \<or> (\<not> b2 \<and> \<not> b1)))"
  by (cases b0; cases b1; cases b2; cases b3; cases b4; cases b5; cases b6; cases b7)
     (simp_all add: is_digit_def)

lemma is_upper_code [code]:
  "is_upper (Char b0 b1 b2 b3 b4 b5 b6 b7) =
     (\<not> b7 \<and> b6 \<and> \<not> b5 \<and> (b0 \<or> b1 \<or> b2 \<or> b3 \<or> b4) \<and> \<not> (b4 \<and> b3 \<and> (b2 \<or> (b1 \<and> b0))))"
  by (cases b0; cases b1; cases b2; cases b3; cases b4; cases b5; cases b6; cases b7)
     (simp_all add: is_upper_def)

lemma is_lower_code [code]:
  "is_lower (Char b0 b1 b2 b3 b4 b5 b6 b7) =
     (\<not> b7 \<and> b6 \<and> b5 \<and> (b0 \<or> b1 \<or> b2 \<or> b3 \<or> b4) \<and> \<not> (b4 \<and> b3 \<and> (b2 \<or> (b1 \<and> b0))))"
  by (cases b0; cases b1; cases b2; cases b3; cases b4; cases b5; cases b6; cases b7)
     (simp_all add: is_lower_def)

lemma is_space_code [code]:
  "is_space (Char b0 b1 b2 b3 b4 b5 b6 b7) =
     ((\<not> b7 \<and> \<not> b6 \<and>
       ((\<not> b5 \<and> \<not> b4 \<and> b3 \<and> ((\<not> b2 \<and> (b0 \<or> b1)) \<or> (b2 \<and> \<not> b1))) \<or>
        (\<not> b5 \<and> b4 \<and> b3 \<and> b2) \<or>
        (b5 \<and> \<not> b4 \<and> \<not> b3 \<and> \<not> b2 \<and> \<not> b1 \<and> \<not> b0))) \<or>
      (b7 \<and> \<not> b6 \<and> \<not> b4 \<and> \<not> b3 \<and> \<not> b1 \<and>
       ((\<not> b5 \<and> b2 \<and> b0) \<or> (b5 \<and> \<not> b2 \<and> \<not> b0))))"
  by (cases b0; cases b1; cases b2; cases b3; cases b4; cases b5; cases b6; cases b7)
     (simp_all add: is_space_def)

lemma is_latin1_alnum_code [code]:
  "is_latin1_alnum (Char b0 b1 b2 b3 b4 b5 b6 b7) =
     (b7 \<and>
      ((b6 \<and> \<not> (b4 \<and> \<not> b3 \<and> b2 \<and> b1 \<and> b0)) \<or>
       (\<not> b6 \<and> b5 \<and>
        ((\<not> b4 \<and> b3 \<and> \<not> b2 \<and> b1 \<and> \<not> b0) \<or>
         (b4 \<and> \<not> b3 \<and> \<not> b2 \<and> b1) \<or>
         (b4 \<and> \<not> b3 \<and> b2 \<and> \<not> b1 \<and> b0) \<or>
         (b4 \<and> b3 \<and> \<not> b2 \<and> (b1 \<noteq> b0)) \<or>
         (b4 \<and> b3 \<and> b2 \<and> \<not> (b1 \<and> b0))))))"
  by (cases b0; cases b1; cases b2; cases b3; cases b4; cases b5; cases b6; cases b7)
     (simp_all add: is_latin1_alnum_def)

lemma is_latin1_upper_code [code]:
  "is_latin1_upper (Char b0 b1 b2 b3 b4 b5 b6 b7) =
     (b7 \<and> b6 \<and> \<not> b5 \<and> \<not> (b4 \<and> b2 \<and> b1 \<and> b0))"
  by (cases b0; cases b1; cases b2; cases b3; cases b4; cases b5; cases b6; cases b7)
     (simp_all add: is_latin1_upper_def)

lemma lower_char_code [code]:
  "lower_char (Char b0 b1 b2 b3 b4 b5 b6 b7) =
     (if is_upper (Char b0 b1 b2 b3 b4 b5 b6 b7) \<or> is_latin1_upper (Char b0 b1 b2 b3 b4 b5 b6 b7)
      then Char b0 b1 b2 b3 b4 True b6 b7
      else Char b0 b1 b2 b3 b4 b5 b6 b7)"
  by (cases b0; cases b1; cases b2; cases b3; cases b4; cases b5; cases b6; cases b7)
     (simp_all add: lower_char_def is_upper_def is_latin1_upper_def char_of_def bit_iff_odd)

lemma upper_char_code [code]:
  "upper_char (Char b0 b1 b2 b3 b4 b5 b6 b7) =
     (if is_lower (Char b0 b1 b2 b3 b4 b5 b6 b7) then Char b0 b1 b2 b3 b4 False b6 b7
      else Char b0 b1 b2 b3 b4 b5 b6 b7)"
  by (cases b0; cases b1; cases b2; cases b3; cases b4; cases b5; cases b6; cases b7)
     (simp_all add: upper_char_def is_lower_def char_of_def bit_iff_odd)

definition lower :: "string \<Rightarrow> string" where
  "lower s = map lower_char s"

definition lstrip :: "string \<Rightarrow> string" where
  "lstrip s = dropWhile is_space s"

definition rstrip :: "string \<Rightarrow> string" where
  "rstrip s = rev (dropWhile is_space (rev s))"

definition strip :: "string \<Rightarrow> string" where
  "strip s = rstrip (lstrip s)"

text \<open>\<^verbatim>\<open>str.split()\<close> with no argument: the maximal runs of non-space characters.\<close>

fun split_ws :: "string \<Rightarrow> string \<Rightarrow> string list" where
  "split_ws acc [] = (if acc = [] then [] else [rev acc])"
| "split_ws acc (c # cs) =
     (if is_space c then (if acc = [] then split_ws [] cs else rev acc # split_ws [] cs)
      else split_ws (c # acc) cs)"

definition py_split :: "string \<Rightarrow> string list" where
  "py_split s = split_ws [] s"

text \<open>\<^verbatim>\<open>a in w\<close> on strings: \<open>a\<close> is a contiguous substring of \<open>w\<close>.\<close>

fun is_substring :: "string \<Rightarrow> string \<Rightarrow> bool" where
  "is_substring a [] = (a = [])"
| "is_substring a (c # cs) = (take (length a) (c # cs) = a \<or> is_substring a cs)"

definition endswith :: "string \<Rightarrow> string \<Rightarrow> bool" where
  "endswith s suf = (length suf \<le> length s \<and> drop (length s - length suf) s = suf)"

text \<open>The slice \<^verbatim>\<open>s[a:b]\<close> for \<open>0 \<le> a\<close> and \<open>0 \<le> b\<close>.\<close>

definition slice :: "string \<Rightarrow> nat \<Rightarrow> nat \<Rightarrow> string" where
  "slice s a b = take (b - a) (drop a s)"

section \<open>The regular expressions of Python's \<^verbatim>\<open>re\<close>\<close>

text \<open>
  The patterns of the program use character classes, literals, bounded and unbounded
  repetition of a single character class (greedy or lazy), concatenation, alternation,
  capture groups, positive lookahead, a one-character lookbehind, the anchors
  \<^verbatim>\<open>^\<close>, \<^verbatim>\<open>$\<close>, \<^verbatim>\<open>\Z\<close> and the word boundary \<^verbatim>\<open>\b\<close>. Every repetition in the
  program is over one character class, so the syntax below has no general repetition.
\<close>

datatype cls =
    CAny
  | CLit char
  | CSet string
  | CUpper
  | CLower
  | CDigit
  | CSpace
  | CWord
  | COr cls cls
  | CNot cls

datatype regex =
    One cls
  | Str string
  | Rep cls nat "nat option" bool
  | Cat regex regex
  | Alt regex regex
  | Grp nat regex
  | Ahead regex
  | Behind cls
  | Bos
  | Eol
  | Eos
  | Wb

record flags =
  ignorecase :: bool
  dotall :: bool

definition no_flags :: flags where
  "no_flags = \<lparr>ignorecase = False, dotall = False\<rparr>"

definition flag_i :: flags where
  "flag_i = \<lparr>ignorecase = True, dotall = False\<rparr>"

definition flag_is :: flags where
  "flag_is = \<lparr>ignorecase = True, dotall = True\<rparr>"

text \<open>
  Whether a character belongs to a class. \<open>CUpper\<close> is the range \<^verbatim>\<open>A-Z\<close>, \<open>CLower\<close>
  the range \<^verbatim>\<open>a-z\<close>, \<open>CDigit\<close> is \<^verbatim>\<open>\d\<close> and \<^verbatim>\<open>0-9\<close>, \<open>CSet\<close> lists its members.
  Under \<^verbatim>\<open>re.IGNORECASE\<close> a literal matches in either case, and a range matches a
  character when its lower-case or its upper-case form lies in the range.
\<close>

fun cls_match :: "flags \<Rightarrow> cls \<Rightarrow> char \<Rightarrow> bool" where
  "cls_match f CAny c = (dotall f \<or> c \<noteq> nl)"
| "cls_match f (CLit x) c = (if ignorecase f then lower_char c = lower_char x else c = x)"
| "cls_match f (CSet xs) c = (if ignorecase f then lower_char c \<in> set (map lower_char xs) else c \<in> set xs)"
| "cls_match f CUpper c =
     (if ignorecase f then is_upper (lower_char c) \<or> is_upper (upper_char c) else is_upper c)"
| "cls_match f CLower c =
     (if ignorecase f then is_lower (lower_char c) \<or> is_lower (upper_char c) else is_lower c)"
| "cls_match f CDigit c = is_digit c"
| "cls_match f CSpace c = is_space c"
| "cls_match f CWord c = is_word c"
| "cls_match f (COr a b) c = (cls_match f a c \<or> cls_match f b c)"
| "cls_match f (CNot a) c = (\<not> cls_match f a c)"

text \<open>
  A match state is the position reached, the character just before it (if any), the rest
  of the text from there on, and the spans of the groups captured so far (most recent
  first).
\<close>

type_synonym caps = "(nat \<times> nat \<times> nat) list"

type_synonym cursor = "nat \<times> char option \<times> string"

type_synonym mstate = "nat \<times> char option \<times> string \<times> caps"

text \<open>A literal string, character by character.\<close>

fun lit_match :: "flags \<Rightarrow> string \<Rightarrow> cursor \<Rightarrow> cursor option" where
  "lit_match f [] cu = Some cu"
| "lit_match f (x # xs) (i, p, []) = None"
| "lit_match f (x # xs) (i, p, c # cs) =
     (if cls_match f (CLit x) c then lit_match f xs (Suc i, Some c, cs) else None)"

text \<open>
  The cursors reached by consuming 0, 1, 2, \<dots> characters of a class, at most \<open>k\<close> of
  them when the bound is \<open>Some k\<close>.
\<close>

fun rep_run :: "flags \<Rightarrow> cls \<Rightarrow> nat option \<Rightarrow> cursor \<Rightarrow> cursor list" where
  "rep_run f c hi (i, p, []) = [(i, p, [])]"
| "rep_run f c hi (i, p, x # xs) =
     (i, p, x # xs) #
     (if hi = Some 0 then []
      else if cls_match f c x then rep_run f c (map_option (\<lambda>k. k - 1) hi) (Suc i, Some x, xs)
      else [])"

definition word_opt :: "char option \<Rightarrow> bool" where
  "word_opt p = (case p of None \<Rightarrow> False | Some c \<Rightarrow> is_word c)"

text \<open>\<^verbatim>\<open>\b\<close>: exactly one of the characters before and after the position is a word character.\<close>

definition boundary :: "char option \<Rightarrow> string \<Rightarrow> bool" where
  "boundary p rest = (word_opt p \<noteq> word_opt (case rest of [] \<Rightarrow> None | c # _ \<Rightarrow> Some c))"

text \<open>
  The matcher returns every way a pattern can match from a state, in the order in which
  a backtracking matcher tries them: the head of the list is the match Python reports.
  Alternatives are tried left to right, a greedy repetition tries the longest run first,
  a lazy one the shortest.
\<close>

fun rmatch :: "flags \<Rightarrow> regex \<Rightarrow> mstate \<Rightarrow> mstate list" where
  "rmatch f (One c) (i, p, rest, g) =
     (case rest of
        [] \<Rightarrow> []
      | x # xs \<Rightarrow> if cls_match f c x then [(Suc i, Some x, xs, g)] else [])"
| "rmatch f (Str s) (i, p, rest, g) =
     (case lit_match f s (i, p, rest) of
        None \<Rightarrow> []
      | Some (j, q, rest') \<Rightarrow> [(j, q, rest', g)])"
| "rmatch f (Rep c lo hi greedy) (i, p, rest, g) =
     (let cs = drop lo (rep_run f c hi (i, p, rest))
      in map (\<lambda>(j, q, rest'). (j, q, rest', g)) (if greedy then rev cs else cs))"
| "rmatch f (Cat a b) s = concat (map (rmatch f b) (rmatch f a s))"
| "rmatch f (Alt a b) s = rmatch f a s @ rmatch f b s"
| "rmatch f (Grp k r) (i, p, rest, g) =
     map (\<lambda>(j, q, rest', g'). (j, q, rest', (k, i, j) # g')) (rmatch f r (i, p, rest, g))"
| "rmatch f (Ahead r) (i, p, rest, g) =
     (case rmatch f r (i, p, rest, g) of
        [] \<Rightarrow> []
      | (j, q, rest', g') # _ \<Rightarrow> [(i, p, rest, g')])"
| "rmatch f (Behind c) (i, p, rest, g) =
     (case p of
        None \<Rightarrow> []
      | Some x \<Rightarrow> if cls_match f c x then [(i, p, rest, g)] else [])"
| "rmatch f Bos (i, p, rest, g) = (if i = 0 then [(i, p, rest, g)] else [])"
| "rmatch f Eol (i, p, rest, g) = (if rest = [] \<or> rest = [nl] then [(i, p, rest, g)] else [])"
| "rmatch f Eos (i, p, rest, g) = (if rest = [] then [(i, p, rest, g)] else [])"
| "rmatch f Wb (i, p, rest, g) = (if boundary p rest then [(i, p, rest, g)] else [])"

text \<open>Concatenation and alternation of several patterns.\<close>

fun seq :: "regex list \<Rightarrow> regex" where
  "seq [] = Str []"
| "seq [r] = r"
| "seq (r # rs) = Cat r (seq rs)"

fun alts :: "regex list \<Rightarrow> regex" where
  "alts [] = One (CNot (COr CAny (CLit nl)))"
| "alts [r] = r"
| "alts (r # rs) = Alt r (alts rs)"

text \<open>A match object: start, end and the captured spans.\<close>

record rmatch_obj =
  m_start :: nat
  m_end :: nat
  m_caps :: caps

text \<open>The first match that starts exactly at the cursor, with where it ends.\<close>

definition match_here :: "flags \<Rightarrow> regex \<Rightarrow> cursor \<Rightarrow> (rmatch_obj \<times> cursor) option" where
  "match_here f r cu =
     (case cu of (i, p, rest) \<Rightarrow>
        (case rmatch f r (i, p, rest, []) of
           [] \<Rightarrow> None
         | (j, q, rest', g) # _ \<Rightarrow> Some (\<lparr>m_start = i, m_end = j, m_caps = g\<rparr>, (j, q, rest'))))"

text \<open>The leftmost match at or after the cursor: each start position in turn.\<close>

fun search_from :: "flags \<Rightarrow> regex \<Rightarrow> nat \<Rightarrow> char option \<Rightarrow> string \<Rightarrow> (rmatch_obj \<times> cursor) option" where
  "search_from f r i p [] = match_here f r (i, p, [])"
| "search_from f r i p (x # xs) =
     (case match_here f r (i, p, x # xs) of
        Some m \<Rightarrow> Some m
      | None \<Rightarrow> search_from f r (Suc i) (Some x) xs)"

definition re_search :: "flags \<Rightarrow> regex \<Rightarrow> string \<Rightarrow> rmatch_obj option" where
  "re_search f r t = map_option fst (search_from f r 0 None t)"

definition re_match :: "flags \<Rightarrow> regex \<Rightarrow> string \<Rightarrow> rmatch_obj option" where
  "re_match f r t = map_option fst (match_here f r (0, None, t))"

text \<open>\<^verbatim>\<open>match.group(k)\<close>; \<open>None\<close> when the group took no part in the match.\<close>

definition match_group :: "string \<Rightarrow> rmatch_obj \<Rightarrow> nat \<Rightarrow> string option" where
  "match_group t m k =
     (case map_of (m_caps m) k of
        None \<Rightarrow> None
      | Some (a, b) \<Rightarrow> Some (slice t a b))"

text \<open>
  \<^verbatim>\<open>re.finditer\<close>: the non-overlapping matches from left to right. After a match the
  scan resumes where the match ended. No pattern of the program that is used with
  \<^verbatim>\<open>finditer\<close>, \<^verbatim>\<open>sub\<close> or \<^verbatim>\<open>split\<close> can match the empty string; after an empty
  match the model moves one character on.
\<close>

function finditer_from :: "flags \<Rightarrow> regex \<Rightarrow> nat \<Rightarrow> char option \<Rightarrow> string \<Rightarrow> rmatch_obj list" where
  "finditer_from f r i p rest =
     (case match_here f r (i, p, rest) of
        Some (m, (j, q, rest')) \<Rightarrow>
          (if length rest' < length rest then m # finditer_from f r j q rest'
           else (case rest of
                   [] \<Rightarrow> [m]
                 | x # xs \<Rightarrow> m # finditer_from f r (Suc i) (Some x) xs))
      | None \<Rightarrow>
          (case rest of
             [] \<Rightarrow> []
           | x # xs \<Rightarrow> finditer_from f r (Suc i) (Some x) xs))"
  by pat_completeness auto
termination
  by (relation "measure (\<lambda>(f, r, i, p, rest). length rest)") auto

declare finditer_from.simps [simp del]

definition re_finditer :: "flags \<Rightarrow> regex \<Rightarrow> string \<Rightarrow> rmatch_obj list" where
  "re_finditer f r t = finditer_from f r 0 None t"

text \<open>
  \<^verbatim>\<open>re.split\<close> for a pattern without groups: the pieces of the text between the matches.
\<close>

fun pieces :: "string \<Rightarrow> nat \<Rightarrow> rmatch_obj list \<Rightarrow> string list" where
  "pieces t a [] = [drop a t]"
| "pieces t a (m # ms) = slice t a (m_start m) # pieces t (m_end m) ms"

definition re_split :: "flags \<Rightarrow> regex \<Rightarrow> string \<Rightarrow> string list" where
  "re_split f r t = pieces t 0 (re_finditer f r t)"

text \<open>\<^verbatim>\<open>re.sub\<close> with a replacement that has no back-reference.\<close>

fun join :: "string \<Rightarrow> string list \<Rightarrow> string" where
  "join sep [] = []"
| "join sep [x] = x"
| "join sep (x # xs) = x @ sep @ join sep xs"

definition re_sub :: "flags \<Rightarrow> regex \<Rightarrow> string \<Rightarrow> string \<Rightarrow> string" where
  "re_sub f r repl t = join repl (re_split f r t)"

section \<open>Content classifier\<close>

text \<open>
  The methods of \<^verbatim>\<open>AIMinutesAgent\<close> follow. The flag \<^verbatim>\<open>debug_mode\<close> only adds console
  output; printing is not modelled.
\<close>

definition optional :: "cls \<Rightarrow> regex" where
  "optional c = Rep c 0 (Some 1) True"

definition zero_or_more :: "cls \<Rightarrow> regex" where
  "zero_or_more c = Rep c 0 None True"

definition one_or_more :: "cls \<Rightarrow> regex" where
  "one_or_more c = Rep c 1 None True"

text \<open>
  \<^verbatim>\<open>no_comment_patterns\<close> of \<^verbatim>\<open>has_no_comments\<close>:
  \<^verbatim>\<open>\b(no open forum|no comments?|none|n/?a|not applicable)\b\<close>,
  \<^verbatim>\<open>\b(no public comment|no discussion|no speakers?)\b\<close>,
  \<^verbatim>\<open>\b(no one spoke|no attendees|no participants)\b\<close>,
  \<^verbatim>\<open>^\s*(none|n/?a)\s*\.?\s*$\<close>.
\<close>

definition n_a :: regex where
  "n_a = seq [Str ''n'', optional (CLit CHR ''/''), Str ''a'']"

definition no_comment_pattern1 :: regex where
  "no_comment_pattern1 =
     seq [Wb,
          Grp 1 (alts [Str ''no open forum'',
                       seq [Str ''no comment'', optional (CLit CHR ''s'')],
                       Str ''none'',
                       n_a,
                       Str ''not applicable'']),
          Wb]"

definition no_comment_pattern2 :: regex where
  "no_comment_pattern2 =
     seq [Wb,
          Grp 1 (alts [Str ''no public comment'',
                       Str ''no discussion'',
                       seq [Str ''no speaker'', optional (CLit CHR ''s'')]]),
          Wb]"

definition no_comment_pattern3 :: regex where
  "no_comment_pattern3 =
     seq [Wb,
          Grp 1 (alts [Str ''no one spoke'', Str ''no attendees'', Str ''no participants'']),
          Wb]"

definition no_comment_pattern4 :: regex where
  "no_comment_pattern4 =
     seq [Bos, zero_or_more CSpace, Grp 1 (alts [Str ''none'', n_a]), zero_or_more CSpace,
          optional (CLit CHR ''.''), zero_or_more CSpace, Eol]"

definition no_comment_patterns :: "regex list" where
  "no_comment_patterns =
     [no_comment_pattern1, no_comment_pattern2, no_comment_pattern3, no_comment_pattern4]"

text \<open>The loop \<^verbatim>\<open>for pattern in ps: if re.search(pattern, text, flags): return True\<close>.\<close>

fun any_search :: "flags \<Rightarrow> regex list \<Rightarrow> string \<Rightarrow> bool" where
  "any_search f [] t = False"
| "any_search f (p # ps) t =
     (case re_search f p t of Some m \<Rightarrow> True | None \<Rightarrow> any_search f ps t)"

fun any_match :: "flags \<Rightarrow> regex list \<Rightarrow> string \<Rightarrow> bool" where
  "any_match f [] t = False"
| "any_match f (p # ps) t =
     (case re_match f p t of Some m \<Rightarrow> True | None \<Rightarrow> any_match f ps t)"

definition has_no_comments :: "string \<Rightarrow> bool" where
  "has_no_comments t = any_search flag_i no_comment_patterns t"

text \<open>\<^verbatim>\<open>re.sub(r'\s+', ' ', s)\<close>.\<close>

definition collapse_ws :: "string \<Rightarrow> string" where
  "collapse_ws s = re_sub no_flags (one_or_more CSpace) '' '' s"

text \<open>
  \<^verbatim>\<open>admin_only_patterns\<close> of \<^verbatim>\<open>is_only_admin_content\<close>:
  \<^verbatim>\<open>^[A-Za-z0-9\s\-:]+envelope\s+id[:\s]*[A-Za-z0-9\-]+\s*$\<close>, \<^verbatim>\<open>^page\s+\d+\s*$\<close>,
  \<^verbatim>\<open>^continued\s*$\<close>, \<^verbatim>\<open>^end\s*$\<close>, \<^verbatim>\<open>^\s*$\<close>.
\<close>

definition alnum :: cls where
  "alnum = COr CUpper (COr CLower CDigit)"

definition admin_only_patterns :: "regex list" where
  "admin_only_patterns =
     [seq [Bos, one_or_more (COr alnum (COr CSpace (CSet ''-:''))), Str ''envelope'', one_or_more CSpace,
           Str ''id'', zero_or_more (COr (CLit CHR '':'') CSpace), one_or_more (COr alnum (CLit CHR ''-'')),
           zero_or_more CSpace, Eol],
      seq [Bos, Str ''page'', one_or_more CSpace, one_or_more CDigit, zero_or_more CSpace, Eol],
      seq [Bos, Str ''continued'', zero_or_more CSpace, Eol],
      seq [Bos, Str ''end'', zero_or_more CSpace, Eol],
      seq [Bos, zero_or_more CSpace, Eol]]"

definition admin_words :: "string list" where
  "admin_words = [''docusign'', ''envelope'', ''id'', ''page'', ''continued'', ''end'']"

definition is_only_admin_content :: "string \<Rightarrow> bool" where
  "is_only_admin_content t =
     (let clean_text = collapse_ws (strip t) in
      if length clean_text < 10 then True
      else if any_match flag_i admin_only_patterns clean_text then True
      else
        (let words = py_split (lower clean_text);
             non_admin_words =
               filter (\<lambda>w. \<not> list_ex (\<lambda>admin. is_substring admin w) admin_words) words
         in if length non_admin_words < 3 then True else False))"

text \<open>
  \<^verbatim>\<open>admin_patterns\<close> of \<^verbatim>\<open>is_admin_paragraph\<close>, searched without flags in the
  lower-cased paragraph: \<^verbatim>\<open>docusign\s+envelope\s+id:\<close>, \<^verbatim>\<open>page\s+\d+\<close>,
  \<^verbatim>\<open>^continued\s*$\<close>, \<^verbatim>\<open>^end\s*$\<close>, \<^verbatim>\<open>^\s*\d+\s*$\<close>, \<^verbatim>\<open>meeting\s+id:\<close>,
  \<^verbatim>\<open>zoom\s+call:\<close>, \<^verbatim>\<open>passcode:\<close>.
\<close>

definition admin_patterns :: "regex list" where
  "admin_patterns =
     [seq [Str ''docusign'', one_or_more CSpace, Str ''envelope'', one_or_more CSpace, Str ''id:''],
      seq [Str ''page'', one_or_more CSpace, one_or_more CDigit],
      seq [Bos, Str ''continued'', zero_or_more CSpace, Eol],
      seq [Bos, Str ''end'', zero_or_more CSpace, Eol],
      seq [Bos, zero_or_more CSpace, one_or_more CDigit, zero_or_more CSpace, Eol],
      seq [Str ''meeting'', one_or_more CSpace, Str ''id:''],
      seq [Str ''zoom'', one_or_more CSpace, Str ''call:''],
      Str ''passcode:'']"

text \<open>
  The phrases removed from a long paragraph, each with \<^verbatim>\<open>re.IGNORECASE\<close>:
  \<^verbatim>\<open>docusign\s+envelope\s+id:\s*[a-f0-9\-]+\<close>, \<^verbatim>\<open>page\s+\d+\<close>, \<^verbatim>\<open>meeting\s+id:\s*\d+\<close>,
  \<^verbatim>\<open>zoom\s+call:\s*https?://[^\s]+\<close>, \<^verbatim>\<open>passcode:\s*\w+\<close>.
\<close>

definition admin_phrases :: "regex list" where
  "admin_phrases =
     [seq [Str ''docusign'', one_or_more CSpace, Str ''envelope'', one_or_more CSpace, Str ''id:'',
           zero_or_more CSpace, one_or_more (COr (CSet ''abcdef'') (COr CDigit (CLit CHR ''-'')))],
      seq [Str ''page'', one_or_more CSpace, one_or_more CDigit],
      seq [Str ''meeting'', one_or_more CSpace, Str ''id:'', zero_or_more CSpace, one_or_more CDigit],
      seq [Str ''zoom'', one_or_more CSpace, Str ''call:'', zero_or_more CSpace, Str ''http'',
           optional (CLit CHR ''s''), Str ''://'', one_or_more (CNot CSpace)],
      seq [Str ''passcode:'', zero_or_more CSpace, one_or_more CWord]]"

fun remove_all :: "regex list \<Rightarrow> string \<Rightarrow> string" where
  "remove_all [] t = t"
| "remove_all (p # ps) t = remove_all ps (re_sub flag_i p [] t)"

definition is_admin_paragraph :: "string \<Rightarrow> bool" where
  "is_admin_paragraph paragraph =
     (let clean_para = lower (strip paragraph) in
      if length clean_para < 50 \<and> any_search no_flags admin_patterns clean_para then True
      else if length clean_para > 100 then
        (let temp_text = strip (collapse_ws (remove_all admin_phrases clean_para))
         in if length temp_text > 80 then False else False)
      else False)"

section \<open>Comment segmenter\<close>

text \<open>
  The two boundary patterns of \<^verbatim>\<open>split_by_clear_boundaries\<close>, without flags:
  \<^verbatim>\<open>(?<=\.)\s*\n(?=[A-Z][a-zA-Z\s,&]+ (meeting times? were asked by|was asked by|asked by|stated by))\<close>
  and \<^verbatim>\<open>(?<=\.)\s*\n(?=Per [A-Z][a-zA-Z\s,]+,)\<close>.
\<close>

definition letters :: cls where
  "letters = COr CLower CUpper"

definition boundary_pattern :: regex where
  "boundary_pattern =
     seq [Behind (CLit CHR ''.''), zero_or_more CSpace, One (CLit nl),
          Ahead (seq [One CUpper, one_or_more (COr letters (COr CSpace (CSet '',&''))), Str '' '',
                      Grp 1 (alts [seq [Str ''meeting time'', optional (CLit CHR ''s''),
                                        Str '' were asked by''],
                                   Str ''was asked by'',
                                   Str ''asked by'',
                                   Str ''stated by''])])]"

definition boundary_pattern2 :: regex where
  "boundary_pattern2 =
     seq [Behind (CLit CHR ''.''), zero_or_more CSpace, One (CLit nl),
          Ahead (seq [Str ''Per '', One CUpper, one_or_more (COr letters (COr CSpace (CLit CHR '',''))),
                      Str '',''])]"

text \<open>\<^verbatim>\<open>match.end() - 1\<close> for every match of the two patterns, in the order found.\<close>

definition split_points :: "string \<Rightarrow> nat list" where
  "split_points paragraph =
     concat (map (\<lambda>pat. map (\<lambda>m. m_end m - 1) (re_finditer no_flags pat paragraph))
                 [boundary_pattern, boundary_pattern2])"

definition single_comment :: "string \<Rightarrow> string list" where
  "single_comment paragraph = (if strip paragraph \<noteq> [] then [strip paragraph] else [])"

text \<open>The loop over the sorted boundaries: the state is \<^verbatim>\<open>start\<close> and \<^verbatim>\<open>comments\<close>.\<close>

fun split_loop :: "string \<Rightarrow> nat list \<Rightarrow> nat \<times> string list \<Rightarrow> nat \<times> string list" where
  "split_loop paragraph [] (start, comments) = (start, comments)"
| "split_loop paragraph (b # bs) (start, comments) =
     split_loop paragraph bs
       (b, if start < b then
             (let comment = strip (slice paragraph start b)
              in if length comment > 30 then comments @ [comment] else comments)
           else comments)"

definition split_by_clear_boundaries :: "string \<Rightarrow> string list" where
  "split_by_clear_boundaries paragraph =
     (let points = split_points paragraph in
      if points = [] then single_comment paragraph
      else
        (case split_loop paragraph (sort (remdups points)) (0, []) of
           (start, comments) \<Rightarrow>
             (let comments' =
                    (if start < length paragraph then
                       (let final_comment = strip (drop start paragraph)
                        in if length final_comment > 30 then comments @ [final_comment]
                           else comments)
                     else comments)
              in if comments' = [] then single_comment paragraph else comments')))"

text \<open>
  The paragraph separator \<^verbatim>\<open>\n\s*\n|\r\n\s*\r\n\<close> and the line filter
  \<^verbatim>\<open>^\s*(page \d+|continued|end)\s*$\<close> (with \<^verbatim>\<open>re.IGNORECASE\<close>) of
  \<^verbatim>\<open>count_public_comments\<close>.
\<close>

definition paragraph_sep :: regex where
  "paragraph_sep =
     Alt (seq [One (CLit nl), zero_or_more CSpace, One (CLit nl)])
         (seq [Str [cr, nl], zero_or_more CSpace, Str [cr, nl]])"

definition page_line :: regex where
  "page_line =
     seq [Bos, zero_or_more CSpace,
          Grp 1 (alts [seq [Str ''page '', one_or_more CDigit], Str ''continued'', Str ''end'']),
          zero_or_more CSpace, Eol]"

definition paragraphs_of :: "string \<Rightarrow> string list" where
  "paragraphs_of t = re_split no_flags paragraph_sep t"

definition is_valid_paragraph :: "string \<Rightarrow> bool" where
  "is_valid_paragraph para =
     (length para > 20 \<and> re_match flag_i page_line para = None \<and> \<not> is_admin_paragraph para)"

fun valid_paragraphs :: "string list \<Rightarrow> string list" where
  "valid_paragraphs [] = []"
| "valid_paragraphs (para # ps) =
     (let para' = strip para in
      if is_valid_paragraph para' then split_by_clear_boundaries para' @ valid_paragraphs ps
      else valid_paragraphs ps)"

definition count_public_comments :: "string \<Rightarrow> nat" where
  "count_public_comments open_forum_text =
     (if open_forum_text = [] \<or> has_no_comments open_forum_text then 0
      else if is_only_admin_content open_forum_text then 0
      else length (valid_paragraphs (paragraphs_of open_forum_text)))"

section \<open>Errors\<close>

text \<open>
  A Python exception is a value: a function that can raise returns \<open>Inl\<close> of the
  exception or \<open>Inr\<close> of its result.
\<close>

datatype py_error =
    ValueError
  | IndexError
  | TypeError
  | AttributeError
  | FileNotFoundError
  | NotADirectoryError

definition sbind :: "py_error + 'a \<Rightarrow> ('a \<Rightarrow> py_error + 'b) \<Rightarrow> py_error + 'b" where
  "sbind m k = (case m of Inl e \<Rightarrow> Inl e | Inr x \<Rightarrow> k x)"

section \<open>Section locator\<close>

text \<open>
  The nine patterns of \<^verbatim>\<open>extract_open_forum_section\<close>, in the order of the source:
  \<^verbatim>\<open>V\.\s*Open Forum(.*?)(?=VI\.|Discussion Item|VII\.|Action Items|Motion|Adjournment|\Z)\<close>,
  \<^verbatim>\<open>5\.\s*Open Forum(.*?)(?=6\.|Discussion Item|7\.|Action Items|Motion|Adjournment|\Z)\<close>,
  \<^verbatim>\<open>Open Forum(.*?)(?=Discussion Item|Action Items|Motion|Adjournment|Next Meeting|\Z)\<close>,
  \<^verbatim>\<open>V\.\s*[A-Z]{4}\s+[A-Z]{5}(.*?)(?=VI\.|Discussion Item|VII\.|Action Items|Motion|Adjournment|\Z)\<close>,
  \<^verbatim>\<open>5\.\s*[A-Z]{4}\s+[A-Z]{5}(.*?)(?=6\.|Discussion Item|7\.|Action Items|Motion|Adjournment|\Z)\<close>,
  \<^verbatim>\<open>9\.\s*[A-Z]{4}\s+[A-Z]{5}(.*?)(?=VI\.|Discussion Item|VII\.|Action Items|Motion|Adjournment|9I\.|10\.|AQQRXQFHPHQWV|AGMRXUQPHQW|\Z)\<close>,
  \<^verbatim>\<open>9\.\s*OSHQ\s+FRUXP(.*?)(?=9I\.|VI\.|Discussion Item|VII\.|Action Items|Motion|Adjournment|AQQRXQFHPHQWV|AGMRXUQPHQW|\Z)\<close>,
  \<^verbatim>\<open>[IV]*\.\s*[Oo]pen\s+[Ff]orum(.*?)(?=[IV]*\.|Discussion|Action|Motion|Adjournment|Next Meeting|\Z)\<close>,
  \<^verbatim>\<open>\d+\.\s*[Oo]pen\s+[Ff]orum(.*?)(?=\d+\.|Discussion|Action|Motion|Adjournment|Next Meeting|\Z)\<close>.
  Each is searched with \<^verbatim>\<open>re.DOTALL | re.IGNORECASE\<close>.
\<close>

definition lazy_any :: regex where
  "lazy_any = Rep CAny 0 None False"

definition dot :: regex where
  "dot = One (CLit CHR ''.'')"

definition exactly :: "nat \<Rightarrow> cls \<Rightarrow> regex" where
  "exactly n c = Rep c n (Some n) True"

definition garbled_header :: regex where
  "garbled_header = seq [exactly 4 CUpper, one_or_more CSpace, exactly 5 CUpper]"

definition open_forum_any_case :: regex where
  "open_forum_any_case =
     seq [One (CSet ''Oo''), Str ''pen'', one_or_more CSpace, One (CSet ''Ff''), Str ''orum'']"

definition open_forum_patterns :: "regex list" where
  "open_forum_patterns =
     [seq [Str ''V'', dot, zero_or_more CSpace, Str ''Open Forum'', Grp 1 lazy_any,
           Ahead (alts [Str ''VI.'', Str ''Discussion Item'', Str ''VII.'', Str ''Action Items'',
                        Str ''Motion'', Str ''Adjournment'', Eos])],
      seq [Str ''5'', dot, zero_or_more CSpace, Str ''Open Forum'', Grp 1 lazy_any,
           Ahead (alts [Str ''6.'', Str ''Discussion Item'', Str ''7.'', Str ''Action Items'',
                        Str ''Motion'', Str ''Adjournment'', Eos])],
      seq [Str ''Open Forum'', Grp 1 lazy_any,
           Ahead (alts [Str ''Discussion Item'', Str ''Action Items'', Str ''Motion'',
                        Str ''Adjournment'', Str ''Next Meeting'', Eos])],
      seq [Str ''V'', dot, zero_or_more CSpace, garbled_header, Grp 1 lazy_any,
           Ahead (alts [Str ''VI.'', Str ''Discussion Item'', Str ''VII.'', Str ''Action Items'',
                        Str ''Motion'', Str ''Adjournment'', Eos])],
      seq [Str ''5'', dot, zero_or_more CSpace, garbled_header, Grp 1 lazy_any,
           Ahead (alts [Str ''6.'', Str ''Discussion Item'', Str ''7.'', Str ''Action Items'',
                        Str ''Motion'', Str ''Adjournment'', Eos])],
      seq [Str ''9'', dot, zero_or_more CSpace, garbled_header, Grp 1 lazy_any,
           Ahead (alts [Str ''VI.'', Str ''Discussion Item'', Str ''VII.'', Str ''Action Items'',
                        Str ''Motion'', Str ''Adjournment'', Str ''9I.'', Str ''10.'',
                        Str ''AQQRXQFHPHQWV'', Str ''AGMRXUQPHQW'', Eos])],
      seq [Str ''9'', dot, zero_or_more CSpace, Str ''OSHQ'', one_or_more CSpace, Str ''FRUXP'', Grp 1 lazy_any,
           Ahead (alts [Str ''9I.'', Str ''VI.'', Str ''Discussion Item'', Str ''VII.'',
                        Str ''Action Items'', Str ''Motion'', Str ''Adjournment'',
                        Str ''AQQRXQFHPHQWV'', Str ''AGMRXUQPHQW'', Eos])],
      seq [zero_or_more (CSet ''IV''), dot, zero_or_more CSpace, open_forum_any_case, Grp 1 lazy_any,
           Ahead (alts [seq [zero_or_more (CSet ''IV''), dot], Str ''Discussion'', Str ''Action'',
                        Str ''Motion'', Str ''Adjournment'', Str ''Next Meeting'', Eos])],
      seq [one_or_more CDigit, dot, zero_or_more CSpace, open_forum_any_case, Grp 1 lazy_any,
           Ahead (alts [seq [one_or_more CDigit, dot], Str ''Discussion'', Str ''Action'',
                        Str ''Motion'', Str ''Adjournment'', Str ''Next Meeting'', Eos])]]"

text \<open>
  The loop over the patterns: the first one that matches anywhere gives the section,
  \<^verbatim>\<open>match.group(1).strip()\<close>. Calling \<^verbatim>\<open>strip\<close> on a group that took no part in the
  match would raise \<^verbatim>\<open>AttributeError\<close>.
\<close>

fun first_section :: "regex list \<Rightarrow> string \<Rightarrow> py_error + string option" where
  "first_section [] t = Inr None"
| "first_section (p # ps) t =
     (case re_search flag_is p t of
        None \<Rightarrow> first_section ps t
      | Some m \<Rightarrow>
          (case match_group t m 1 of
             None \<Rightarrow> Inl AttributeError
           | Some s \<Rightarrow> Inr (Some (strip s))))"

definition extract_open_forum_section :: "string \<Rightarrow> py_error + string option" where
  "extract_open_forum_section t = first_section open_forum_patterns t"

section \<open>Date extractor\<close>

text \<open>
  The thirteen numeric patterns of \<^verbatim>\<open>extract_date_from_filename\<close>, in the order of the
  source; \<open>sep\<close> is the class \<^verbatim>\<open>[.\-_/]\<close>:
  \<^verbatim>\<open>(\d{1,2})[.\-_/](\d{1,2})[.\-_/](\d{4})\<close>,
  \<^verbatim>\<open>(\d{1,2})[.\-_/](\d{1,2})[.\-_/](\d{2})\<close>,
  \<^verbatim>\<open>(\d{4})[.\-_/](\d{1,2})[.\-_/](\d{1,2})\<close>,
  \<^verbatim>\<open>\s+(\d{1,2})[.\-_/]\s*(\d{1,2})[.\-_/]\s*(\d{4})\<close>,
  \<^verbatim>\<open>\s+(\d{1,2})[.\-_/]\s*(\d{1,2})[.\-_/]\s*(\d{2})\<close>,
  \<^verbatim>\<open>(\d{1,2})\s*[.\-_/]\s*(\d{1,2})\s*[.\-_/]\s*(\d{4})\<close>,
  \<^verbatim>\<open>(\d{1,2})\s*[.\-_/]\s*(\d{1,2})\s*[.\-_/]\s*(\d{2})\<close>,
  \<^verbatim>\<open>(\d{2})(\d{2})(\d{4})\<close>, \<^verbatim>\<open>(\d{1})(\d{2})(\d{4})\<close>, \<^verbatim>\<open>(\d{2})(\d{1})(\d{4})\<close>,
  \<^verbatim>\<open>(\d{1})(\d{1})(\d{4})\<close>, \<^verbatim>\<open>(\d{2})(\d{2})(\d{2})\<close>,
  \<^verbatim>\<open>[a-zA-Z\s]+(\d{1,2})[.\-_/](\d{1,2})[.\-_/](\d{2,4})[a-zA-Z\s]*\<close>.
\<close>

definition sep :: regex where
  "sep = One (CSet ''.-_/'')"

definition digits :: "nat \<Rightarrow> nat \<Rightarrow> regex" where
  "digits lo hi = Rep CDigit lo (Some hi) True"

definition ws :: regex where
  "ws = zero_or_more CSpace"

definition date_patterns :: "regex list" where
  "date_patterns =
     [seq [Grp 1 (digits 1 2), sep, Grp 2 (digits 1 2), sep, Grp 3 (digits 4 4)],
      seq [Grp 1 (digits 1 2), sep, Grp 2 (digits 1 2), sep, Grp 3 (digits 2 2)],
      seq [Grp 1 (digits 4 4), sep, Grp 2 (digits 1 2), sep, Grp 3 (digits 1 2)],
      seq [one_or_more CSpace, Grp 1 (digits 1 2), sep, ws, Grp 2 (digits 1 2), sep, ws,
           Grp 3 (digits 4 4)],
      seq [one_or_more CSpace, Grp 1 (digits 1 2), sep, ws, Grp 2 (digits 1 2), sep, ws,
           Grp 3 (digits 2 2)],
      seq [Grp 1 (digits 1 2), ws, sep, ws, Grp 2 (digits 1 2), ws, sep, ws, Grp 3 (digits 4 4)],
      seq [Grp 1 (digits 1 2), ws, sep, ws, Grp 2 (digits 1 2), ws, sep, ws, Grp 3 (digits 2 2)],
      seq [Grp 1 (digits 2 2), Grp 2 (digits 2 2), Grp 3 (digits 4 4)],
      seq [Grp 1 (digits 1 1), Grp 2 (digits 2 2), Grp 3 (digits 4 4)],
      seq [Grp 1 (digits 2 2), Grp 2 (digits 1 1), Grp 3 (digits 4 4)],
      seq [Grp 1 (digits 1 1), Grp 2 (digits 1 1), Grp 3 (digits 4 4)],
      seq [Grp 1 (digits 2 2), Grp 2 (digits 2 2), Grp 3 (digits 2 2)],
      seq [one_or_more (COr letters CSpace), Grp 1 (digits 1 2), sep, Grp 2 (digits 1 2), sep,
           Grp 3 (digits 2 4), zero_or_more (COr letters CSpace)]]"

text \<open>\<^verbatim>\<open>match.groups()\<close> of a pattern with three groups.\<close>

type_synonym candidate = "string option \<times> string option \<times> string option"

definition groups3 :: "string \<Rightarrow> rmatch_obj \<Rightarrow> candidate" where
  "groups3 t m = (match_group t m 1, match_group t m 2, match_group t m 3)"

text \<open>Strategy 2: every match of every pattern, pattern by pattern, left to right.\<close>

definition candidates :: "string \<Rightarrow> candidate list" where
  "candidates filename =
     concat (map (\<lambda>pat. map (groups3 filename) (re_finditer no_flags pat filename)) date_patterns)"

text \<open>
  \<^verbatim>\<open>len(g)\<close> and \<^verbatim>\<open>int(g)\<close> on a group: \<^verbatim>\<open>TypeError\<close> on \<^verbatim>\<open>None\<close>; \<^verbatim>\<open>int\<close> raises
  \<^verbatim>\<open>ValueError\<close> on a string that is not a number. The groups of the patterns are runs
  of digits, for which \<^verbatim>\<open>int\<close> is the decimal value.
\<close>

definition py_len :: "string option \<Rightarrow> py_error + nat" where
  "py_len g = (case g of None \<Rightarrow> Inl TypeError | Some s \<Rightarrow> Inr (length s))"

definition digit_val :: "char \<Rightarrow> int" where
  "digit_val c = int (of_char c) - 48"

definition decimal :: "string \<Rightarrow> int" where
  "decimal s = foldl (\<lambda>n c. 10 * n + digit_val c) 0 s"

definition py_int :: "string option \<Rightarrow> py_error + int" where
  "py_int g =
     (case g of
        None \<Rightarrow> Inl TypeError
      | Some s \<Rightarrow> if s \<noteq> [] \<and> list_all is_digit s then Inr (decimal s) else Inl ValueError)"

text \<open>\<^verbatim>\<open>datetime.date(year, month, day)\<close> accepts exactly the dates of the calendar.\<close>

definition is_leap :: "int \<Rightarrow> bool" where
  "is_leap y = (y mod 4 = 0 \<and> (y mod 100 \<noteq> 0 \<or> y mod 400 = 0))"

definition days_in_month :: "int \<Rightarrow> int \<Rightarrow> int" where
  "days_in_month y m =
     (if m = 2 then (if is_leap y then 29 else 28)
      else if m = 4 \<or> m = 6 \<or> m = 9 \<or> m = 11 then 30
      else 31)"

definition valid_date :: "int \<Rightarrow> int \<Rightarrow> int \<Rightarrow> bool" where
  "valid_date y m d =
     (1 \<le> y \<and> y \<le> 9999 \<and> 1 \<le> m \<and> m \<le> 12 \<and> 1 \<le> d \<and> d \<le> days_in_month y m)"

text \<open>Decimal output: \<^verbatim>\<open>str(n)\<close> and the format \<^verbatim>\<open>{n:02d}\<close>.\<close>

definition digit_char :: "nat \<Rightarrow> char" where
  "digit_char n = char_of (48 + n)"

fun str_nat :: "nat \<Rightarrow> string" where
  "str_nat n = (if n < 10 then [digit_char n] else str_nat (n div 10) @ [digit_char (n mod 10)])"

definition str_int :: "int \<Rightarrow> string" where
  "str_int n = (if n < 0 then CHR ''-'' # str_nat (nat (- n)) else str_nat (nat n))"

definition format_02d :: "int \<Rightarrow> string" where
  "format_02d n =
     (if n < 0 then str_int n
      else replicate (2 - length (str_int n)) (CHR ''0'') @ str_int n)"

text \<open>\<^verbatim>\<open>f"{month:02d}.{day:02d}.{year}"\<close>.\<close>

definition format_date :: "int \<Rightarrow> int \<Rightarrow> int \<Rightarrow> string" where
  "format_date month day year = format_02d month @ ''.'' @ format_02d day @ ''.'' @ str_int year"

text \<open>
  Strategy 3, the checks on one candidate once its numbers are read: \<open>None\<close> is
  \<^verbatim>\<open>continue\<close>, \<open>Some s\<close> is \<^verbatim>\<open>return s\<close>.
\<close>

definition check_day_year :: "int \<Rightarrow> int \<Rightarrow> int \<Rightarrow> string option" where
  "check_day_year year month day =
     (if \<not> (1 \<le> day \<and> day \<le> 31) then None
      else if \<not> (1990 \<le> year \<and> year \<le> 2030) then None
      else if \<not> valid_date year month day then None
      else Some (format_date month day year))"

definition validate :: "int \<Rightarrow> int \<Rightarrow> int \<Rightarrow> string option" where
  "validate year month day =
     (if \<not> (1 \<le> month \<and> month \<le> 12) then
        (if 1 \<le> day \<and> day \<le> 12 then check_day_year year day month else None)
      else check_day_year year month day)"

definition century :: "int \<Rightarrow> int" where
  "century year_short = (if year_short \<le> 50 then 2000 + year_short else 1900 + year_short)"

text \<open>The body of the \<^verbatim>\<open>try\<close> for one candidate, with what it can raise.\<close>

definition try_candidate :: "candidate \<Rightarrow> py_error + string option" where
  "try_candidate c =
     (case c of (g1, g2, g3) \<Rightarrow>
        sbind (py_len g3) (\<lambda>n3.
          if n3 = 4 then
            sbind (py_int g3) (\<lambda>year.
            sbind (py_int g1) (\<lambda>month.
            sbind (py_int g2) (\<lambda>day. Inr (validate year month day))))
          else if n3 = 2 then
            sbind (py_int g3) (\<lambda>year_short.
            sbind (py_int g1) (\<lambda>month.
            sbind (py_int g2) (\<lambda>day. Inr (validate (century year_short) month day))))
          else
            sbind (py_len g1) (\<lambda>n1.
              if n1 = 4 then
                sbind (py_int g1) (\<lambda>year.
                sbind (py_int g2) (\<lambda>month.
                sbind (py_int g3) (\<lambda>day. Inr (validate year month day))))
              else Inr None)))"

text \<open>\<^verbatim>\<open>except (ValueError, IndexError): continue\<close>.\<close>

definition caught :: "py_error \<Rightarrow> bool" where
  "caught e = (e = ValueError \<or> e = IndexError)"

fun first_valid :: "candidate list \<Rightarrow> py_error + string option" where
  "first_valid [] = Inr None"
| "first_valid (c # cs) =
     (case try_candidate c of
        Inl e \<Rightarrow> if caught e then first_valid cs else Inl e
      | Inr None \<Rightarrow> first_valid cs
      | Inr (Some s) \<Rightarrow> Inr (Some s))"

text \<open>
  Strategy 4, the month names. Each pattern is
  \<^verbatim>\<open>\b(jan|january)\b.*?(\d{1,2}).*?(\d{2,4})\<close> with the names of its month, searched
  without flags in the lower-cased file name, in the order of the dictionary.
\<close>

definition month_pattern :: "string list \<Rightarrow> regex" where
  "month_pattern names =
     seq [Wb, Grp 1 (alts (map Str names)), Wb, Rep CAny 0 None False, Grp 2 (digits 1 2),
          Rep CAny 0 None False, Grp 3 (digits 2 4)]"

definition month_patterns :: "(regex \<times> int) list" where
  "month_patterns =
     [(month_pattern [''jan'', ''january''], 1),
      (month_pattern [''feb'', ''february''], 2),
      (month_pattern [''mar'', ''march''], 3),
      (month_pattern [''apr'', ''april''], 4),
      (month_pattern [''may''], 5),
      (month_pattern [''jun'', ''june''], 6),
      (month_pattern [''jul'', ''july''], 7),
      (month_pattern [''aug'', ''august''], 8),
      (month_pattern [''sep'', ''september''], 9),
      (month_pattern [''oct'', ''october''], 10),
      (month_pattern [''nov'', ''november''], 11),
      (month_pattern [''dec'', ''december''], 12)]"

definition try_month :: "string \<Rightarrow> rmatch_obj \<Rightarrow> int \<Rightarrow> py_error + string option" where
  "try_month t m month =
     sbind (py_int (match_group t m 2)) (\<lambda>day.
       (let year_str = match_group t m 3 in
        sbind (py_int year_str) (\<lambda>year0.
        sbind (py_len year_str) (\<lambda>n.
          (let year = (if n = 2 then century year0 else year0) in
           if 1 \<le> day \<and> day \<le> 31 \<and> 1990 \<le> year \<and> year \<le> 2030
           then Inr (Some (format_date month day year))
           else Inr None)))))"

fun first_month :: "(regex \<times> int) list \<Rightarrow> string \<Rightarrow> py_error + string option" where
  "first_month [] t = Inr None"
| "first_month ((pat, month) # ps) t =
     (case re_search no_flags pat t of
        None \<Rightarrow> first_month ps t
      | Some m \<Rightarrow>
          (case try_month t m month of
             Inl e \<Rightarrow> if caught e then first_month ps t else Inl e
           | Inr None \<Rightarrow> first_month ps t
           | Inr (Some s) \<Rightarrow> Inr (Some s)))"

definition extract_date_from_filename :: "string \<Rightarrow> py_error + string" where
  "extract_date_from_filename filename =
     (case first_valid (candidates filename) of
        Inl e \<Rightarrow> Inl e
      | Inr (Some s) \<Rightarrow> Inr s
      | Inr None \<Rightarrow>
          (case first_month month_patterns (lower filename) of
             Inl e \<Rightarrow> Inl e
           | Inr (Some s) \<Rightarrow> Inr s
           | Inr None \<Rightarrow> Inr ''Unknown Date''))"

section \<open>Aggregator\<close>

text \<open>
  The file system as the aggregator sees it. A file carries its name and the text that
  \<^verbatim>\<open>extract_text_from_pdf\<close> returns for it: the concatenated page texts, or the empty
  string when the document cannot be read (the method catches every exception and
  returns \<^verbatim>\<open>""\<close>). A directory carries its name and its entries in listing order.
\<close>

datatype node =
    File string string
  | Dir string "node list"

fun node_name :: "node \<Rightarrow> string" where
  "node_name (File n t) = n"
| "node_name (Dir n cs) = n"

fun is_dir :: "node \<Rightarrow> bool" where
  "is_dir (File n t) = False"
| "is_dir (Dir n cs) = True"

text \<open>The dictionary \<^verbatim>\<open>processing_stats\<close>; its key \<^verbatim>\<open>'skipped_files'\<close> is \<open>skipped_count\<close>.\<close>

record processing_stats =
  total_files :: nat
  processed_files :: nat
  skipped_count :: nat
  total_comments :: nat

text \<open>The per-year dictionary \<^verbatim>\<open>stats\<close>; its key \<^verbatim>\<open>'total_comments'\<close> is \<open>year_comments\<close>.\<close>

record year_stats =
  total_meetings :: nat
  meetings_with_comments :: nat
  meetings_no_comments :: nat
  meetings_no_open_forum :: nat
  year_comments :: nat

text \<open>
  The mutable attributes of an \<^verbatim>\<open>AIMinutesAgent\<close>; \<open>stats\<close> is the attribute
  \<^verbatim>\<open>processing_stats\<close>. Dictionaries are association lists in insertion order.
\<close>

record agent =
  skipped_files :: "(string \<times> string) list"
  stats :: processing_stats
  meeting_stats :: "(string \<times> year_stats) list"

definition init_agent :: agent where
  "init_agent =
     \<lparr>skipped_files = [],
      stats = \<lparr>total_files = 0, processed_files = 0, skipped_count = 0, total_comments = 0\<rparr>,
      meeting_stats = []\<rparr>"

text \<open>\<^verbatim>\<open>d[k] = v\<close>: the value of an existing key is replaced, a new key goes last.\<close>

fun dict_set :: "('k \<times> 'v) list \<Rightarrow> 'k \<Rightarrow> 'v \<Rightarrow> ('k \<times> 'v) list" where
  "dict_set [] k v = [(k, v)]"
| "dict_set ((k', v') # d) k v = (if k' = k then (k, v) # d else (k', v') # dict_set d k v)"

text \<open>
  \<^verbatim>\<open>os.walk\<close> with the test \<^verbatim>\<open>file.lower().endswith('.pdf')\<close>: the PDF files of a
  directory first, then those of its subdirectories, each as its base name and its text.
  Walking a path that is not a directory yields nothing.
\<close>

type_synonym pdf = "string \<times> string"

fun pdf_of :: "node \<Rightarrow> pdf list" where
  "pdf_of (File n t) = (if endswith (lower n) ''.pdf'' then [(n, t)] else [])"
| "pdf_of (Dir n cs) = []"

fun walk_pdfs :: "node \<Rightarrow> pdf list" where
  "walk_pdfs (File n t) = []"
| "walk_pdfs (Dir n cs) = concat (map pdf_of cs) @ concat (map walk_pdfs cs)"

text \<open>
  \<^verbatim>\<open>not open_forum_text\<close> holds of \<^verbatim>\<open>None\<close> and of the empty string; otherwise the
  value is a non-empty string.
\<close>

definition falsy :: "string option \<Rightarrow> bool" where
  "falsy v = (case v of None \<Rightarrow> True | Some s \<Rightarrow> s = [])"

definition section_text :: "string option \<Rightarrow> string" where
  "section_text v = (case v of None \<Rightarrow> [] | Some s \<Rightarrow> s)"

definition skip :: "agent \<Rightarrow> string \<Rightarrow> string \<Rightarrow> agent" where
  "skip a filename reason_text = a\<lparr>skipped_files := skipped_files a @ [(filename, reason_text)]\<rparr>"

text \<open>
  \<^verbatim>\<open>process_single_pdf\<close>: the date and the count of one file, or the date and \<open>None\<close>
  with a skip entry.
\<close>

definition process_single_pdf :: "agent \<Rightarrow> pdf \<Rightarrow> py_error + (agent \<times> string \<times> nat option)" where
  "process_single_pdf a f =
     (case f of (filename, text) \<Rightarrow>
        sbind (extract_date_from_filename filename) (\<lambda>date.
          if text = [] then Inr (skip a filename ''Failed to extract text'', date, None)
          else
            sbind (extract_open_forum_section text) (\<lambda>open_forum_text.
              if falsy open_forum_text then
                Inr (skip a filename ''No Open Forum section found'', date, None)
              else
                (let comment_count = count_public_comments (section_text open_forum_text) in
                 if comment_count = 0 then
                   Inr (skip a filename ''No comments or 'no comment' marker found'', date, None)
                 else Inr (a, date, Some comment_count)))))"

text \<open>The loop of \<^verbatim>\<open>process_single_year_folder\<close> over the PDF files.\<close>

fun year_loop ::
  "agent \<Rightarrow> (string \<times> nat) list \<Rightarrow> pdf list \<Rightarrow> py_error + (agent \<times> (string \<times> nat) list)" where
  "year_loop a comment_count_map [] = Inr (a, comment_count_map)"
| "year_loop a comment_count_map (f # fs) =
     sbind (process_single_pdf a f) (\<lambda>(a', date, comment_count).
       (case comment_count of
          Some n \<Rightarrow>
            year_loop
              (a'\<lparr>stats := (stats a')\<lparr>processed_files := processed_files (stats a') + 1,
                                       total_comments := total_comments (stats a') + n\<rparr>\<rparr>)
              (dict_set comment_count_map date n) fs
        | None \<Rightarrow>
            year_loop
              (a'\<lparr>stats := (stats a')\<lparr>skipped_count := skipped_count (stats a') + 1\<rparr>\<rparr>)
              comment_count_map fs))"

definition process_single_year_folder ::
  "agent \<Rightarrow> node \<Rightarrow> py_error + (agent \<times> (string \<times> nat) list)" where
  "process_single_year_folder a folder = year_loop a [] (walk_pdfs folder)"

text \<open>
  The loop of \<^verbatim>\<open>process_single_year_folder_with_stats\<close>; it repeats the steps of
  \<^verbatim>\<open>process_single_pdf\<close> inline. The state is the agent, \<^verbatim>\<open>comment_count_map\<close> and the
  counters of the year (of which \<^verbatim>\<open>total_meetings\<close> is fixed before the loop).
\<close>

fun stats_loop ::
  "agent \<Rightarrow> (string \<times> nat) list \<Rightarrow> year_stats \<Rightarrow> pdf list \<Rightarrow>
   py_error + (agent \<times> (string \<times> nat) list \<times> year_stats)" where
  "stats_loop a comment_count_map ys [] = Inr (a, comment_count_map, ys)"
| "stats_loop a comment_count_map ys ((filename, text) # fs) =
     sbind (extract_date_from_filename filename) (\<lambda>date.
       if text = [] then
         stats_loop a comment_count_map
           (ys\<lparr>meetings_no_open_forum := meetings_no_open_forum ys + 1\<rparr>) fs
       else
         sbind (extract_open_forum_section text) (\<lambda>open_forum_text.
           if falsy open_forum_text then
             stats_loop a comment_count_map
               (ys\<lparr>meetings_no_open_forum := meetings_no_open_forum ys + 1\<rparr>) fs
           else
             (let comment_count = count_public_comments (section_text open_forum_text) in
              if comment_count > 0 then
                stats_loop
                  (a\<lparr>stats := (stats a)\<lparr>processed_files := processed_files (stats a) + 1,
                                         total_comments := total_comments (stats a) + comment_count\<rparr>\<rparr>)
                  (dict_set comment_count_map date comment_count)
                  (ys\<lparr>meetings_with_comments := meetings_with_comments ys + 1,
                      year_comments := year_comments ys + comment_count\<rparr>) fs
              else
                stats_loop
                  (a\<lparr>stats := (stats a)\<lparr>skipped_count := skipped_count (stats a) + 1\<rparr>\<rparr>)
                  comment_count_map
                  (ys\<lparr>meetings_no_comments := meetings_no_comments ys + 1\<rparr>) fs)))"

definition process_single_year_folder_with_stats ::
  "agent \<Rightarrow> node \<Rightarrow> py_error + (agent \<times> (string \<times> nat) list \<times> year_stats)" where
  "process_single_year_folder_with_stats a folder =
     (let pdf_files = walk_pdfs folder in
      stats_loop a []
        \<lparr>total_meetings = length pdf_files, meetings_with_comments = 0,
         meetings_no_comments = 0, meetings_no_open_forum = 0, year_comments = 0\<rparr>
        pdf_files)"

text \<open>
  The academic-year folders: the directories of the root whose name starts with
  \<^verbatim>\<open>\d{4}-\d{4}\<close> (the test is \<^verbatim>\<open>re.match\<close>), sorted by name.
\<close>

definition year_pattern :: regex where
  "year_pattern = seq [digits 4 4, Str ''-'', digits 4 4]"

definition yearly_folders :: "node list \<Rightarrow> node list" where
  "yearly_folders items =
     sort_key node_name
       (filter (\<lambda>item. is_dir item \<and> re_match no_flags year_pattern (node_name item) \<noteq> None) items)"

text \<open>\<^verbatim>\<open>os.path.exists(os.path.join(path, name))\<close> and the entry it names.\<close>

definition child :: "node \<Rightarrow> string \<Rightarrow> node option" where
  "child d name =
     (case d of
        File n t \<Rightarrow> None
      | Dir n cs \<Rightarrow> find (\<lambda>c. node_name c = name) cs)"

text \<open>
  The loop of \<^verbatim>\<open>process_folder\<close> over the yearly folders: the state is the agent,
  \<^verbatim>\<open>yearly_results\<close> and \<^verbatim>\<open>total_pdf_files\<close>.
\<close>

type_synonym yearly = "(string \<times> (string \<times> nat) list) list"

fun folders_loop :: "agent \<Rightarrow> yearly \<Rightarrow> nat \<Rightarrow> node list \<Rightarrow> py_error + (agent \<times> yearly \<times> nat)" where
  "folders_loop a yearly_results total_pdf_files [] = Inr (a, yearly_results, total_pdf_files)"
| "folders_loop a yearly_results total_pdf_files (year # years) =
     (case (case child year ''Minutes'' of
              Some p \<Rightarrow> Some p
            | None \<Rightarrow> child year ''Minute'') of
        None \<Rightarrow> folders_loop a yearly_results total_pdf_files years
      | Some minutes_path \<Rightarrow>
          sbind (process_single_year_folder_with_stats a minutes_path)
            (\<lambda>(a', year_results, ys).
               folders_loop
                 (a'\<lparr>meeting_stats := dict_set (meeting_stats a') (node_name year) ys\<rparr>)
                 (dict_set yearly_results (node_name year) year_results)
                 (total_pdf_files + total_meetings ys) years))"

text \<open>
  \<^verbatim>\<open>process_folder\<close> on the entry the path names, if any. A path that does not exist
  raises \<^verbatim>\<open>FileNotFoundError\<close>; listing a path that is not a directory raises
  \<^verbatim>\<open>NotADirectoryError\<close>.
\<close>

definition process_folder :: "agent \<Rightarrow> node option \<Rightarrow> py_error + (agent \<times> yearly)" where
  "process_folder a root =
     (case root of
        None \<Rightarrow> Inl FileNotFoundError
      | Some (File n t) \<Rightarrow> Inl NotADirectoryError
      | Some (Dir n items) \<Rightarrow>
          (let a0 = a\<lparr>meeting_stats := []\<rparr>;
               folders = yearly_folders items
           in if folders = [] then
                sbind (process_single_year_folder a0 (Dir n items))
                  (\<lambda>(a', comment_count_map). Inr (a', [(''All Files'', comment_count_map)]))
              else
                sbind (folders_loop a0 [] 0 folders)
                  (\<lambda>(a', yearly_results, total_pdf_files).
                     Inr (a'\<lparr>stats := (stats a')\<lparr>total_files := total_pdf_files\<rparr>\<rparr>,
                          yearly_results))))"

section \<open>CSV export\<close>

text \<open>
  \<^verbatim>\<open>csv.writer\<close> with its default dialect: fields separated by a comma, rows ended by
  CR LF, and a field quoted only when it holds a comma, a double quote, a CR or a LF; inside
  quotes a double quote is written twice. A row made of one empty field is written as
  two double quotes.
\<close>

definition dq :: char where
  "dq = CHR 0x22"

definition comma :: char where
  "comma = CHR '',''"

definition special :: "char \<Rightarrow> bool" where
  "special c = (c = comma \<or> c = dq \<or> c = cr \<or> c = nl)"

fun escape_quotes :: "string \<Rightarrow> string" where
  "escape_quotes [] = []"
| "escape_quotes (c # cs) = (if c = dq then [dq, dq] else [c]) @ escape_quotes cs"

definition csv_field :: "string \<Rightarrow> string" where
  "csv_field s = (if list_ex special s then [dq] @ escape_quotes s @ [dq] else s)"

definition writerow :: "string list \<Rightarrow> string" where
  "writerow cells =
     (if cells = [[]] then [dq, dq] else join [comma] (map csv_field cells)) @ [cr, nl]"

text \<open>
  \<^verbatim>\<open>export_to_csv\<close>: the header, then one row per date, the years in sorted order and the
  dates of a year in sorted order. The text is what the file holds when writing
  succeeds; a failure of the file system is caught and only printed.
\<close>

definition export_rows :: "(string \<times> (string \<times> nat) list) list \<Rightarrow> (string \<times> string \<times> nat) list" where
  "export_rows yearly_data =
     concat (map (\<lambda>year.
                    case map_of yearly_data year of
                      None \<Rightarrow> []
                    | Some year_data \<Rightarrow>
                        map (\<lambda>(date, count). (year, date, count)) (sort_key fst year_data))
                 (sort (map fst yearly_data)))"

definition csv_header :: "string list" where
  "csv_header = [''Academic_Year'', ''Date'', ''Comment_Count'']"

definition export_to_csv :: "(string \<times> (string \<times> nat) list) list \<Rightarrow> string" where
  "export_to_csv yearly_data =
     writerow csv_header @
     concat (map (\<lambda>(year, date, count). writerow [year, date, str_nat count])
                 (export_rows yearly_data))"

section \<open>Reading a CSV text back\<close>

text \<open>
  \<^verbatim>\<open>csv.reader\<close> with its default dialect over the lines of a file opened with
  \<^verbatim>\<open>newline=''\<close>, as a machine that reads one character at a time. Its state is the
  parser state, the field and the record being built, and the records read so far. A line
  ends at LF, at CR LF, or at a CR that no LF follows; \<open>AfterCr\<close> is the state just after a
  CR that ended a record.
\<close>

datatype rstate =
    StartRecord
  | StartField
  | InField
  | InQuotedField
  | QuoteInQuotedField
  | AfterCr

type_synonym reader = "rstate \<times> string \<times> string list \<times> string list list"

definition add_char :: "reader \<Rightarrow> char \<Rightarrow> rstate \<Rightarrow> reader" where
  "add_char r c st = (case r of (s, fld, cells, records) \<Rightarrow> (st, fld @ [c], cells, records))"

definition save_field :: "reader \<Rightarrow> rstate \<Rightarrow> reader" where
  "save_field r st = (case r of (s, fld, cells, records) \<Rightarrow> (st, [], cells @ [fld], records))"

definition end_record :: "reader \<Rightarrow> char \<Rightarrow> reader" where
  "end_record r c =
     (case r of (s, fld, cells, records) \<Rightarrow>
        (if c = cr then AfterCr else StartRecord, [], [], records @ [cells]))"

definition start_field :: "reader \<Rightarrow> char \<Rightarrow> reader" where
  "start_field r c =
     (if c = nl \<or> c = cr then end_record (save_field r StartField) c
      else if c = dq then (case r of (s, fld, cells, records) \<Rightarrow> (InQuotedField, fld, cells, records))
      else if c = comma then save_field r StartField
      else add_char r c InField)"

definition start_record :: "reader \<Rightarrow> char \<Rightarrow> reader" where
  "start_record r c = (if c = nl \<or> c = cr then end_record r c else start_field r c)"

definition step :: "reader \<Rightarrow> char \<Rightarrow> reader" where
  "step r c =
     (case r of (s, fld, cells, records) \<Rightarrow>
        (case s of
           StartRecord \<Rightarrow> start_record r c
         | StartField \<Rightarrow> start_field r c
         | InField \<Rightarrow>
             if c = nl \<or> c = cr then end_record (save_field r InField) c
             else if c = comma then save_field r StartField
             else add_char r c InField
         | InQuotedField \<Rightarrow>
             if c = dq then (QuoteInQuotedField, fld, cells, records)
             else add_char r c InQuotedField
         | QuoteInQuotedField \<Rightarrow>
             if c = dq then add_char r c InQuotedField
             else if c = comma then save_field r StartField
             else if c = nl \<or> c = cr then end_record (save_field r QuoteInQuotedField) c
             else add_char r c InField
         | AfterCr \<Rightarrow>
             if c = nl then (StartRecord, fld, cells, records)
             else start_record r c))"

text \<open>The end of the input closes a record that no line end closed.\<close>

definition finish :: "reader \<Rightarrow> string list list" where
  "finish r =
     (case r of (s, fld, cells, records) \<Rightarrow>
        if s = StartRecord \<or> s = AfterCr then records
        else records @ [cells @ [fld]])"

definition read_csv :: "string \<Rightarrow> string list list" where
  "read_csv t = finish (foldl step (StartRecord, [], [], []) t)"

text \<open>A data row read back as a triple; the count is read with \<^verbatim>\<open>int\<close>.\<close>

definition to_triple :: "string list \<Rightarrow> (string \<times> string \<times> int) option" where
  "to_triple row =
     (case row of
        [year, date, count] \<Rightarrow>
          (case py_int (Some count) of Inl e \<Rightarrow> None | Inr n \<Rightarrow> Some (year, date, n))
      | _ \<Rightarrow> None)"

section \<open>Properties of the classifier and the segmenter\<close>

text \<open>
  C2. The comment count is 0 whenever the classifier marks the span as empty or
  administrative: if \<open>has_no_comments\<close> or \<open>is_only_admin_content\<close> holds of a span,
  \<open>count_public_comments\<close> returns 0 on it; in particular it returns 0 on
  "No public comment this meeting."
\<close>

theorem count_zero_when_classified_empty:
  "(has_no_comments t \<or> is_only_admin_content t \<longrightarrow> count_public_comments t = 0) \<and>
   count_public_comments ''No public comment this meeting.'' = 0"
proof
  show "has_no_comments t \<or> is_only_admin_content t \<longrightarrow> count_public_comments t = 0"
    by (simp add: count_public_comments_def)
  show "count_public_comments ''No public comment this meeting.'' = 0"
    by code_simp
qed

theorem count_zero_when_classified_empty_witness:
  "has_no_comments ''No comments were made.'' \<and>
   is_only_admin_content ''Page 12'' \<and>
   count_public_comments ''No comments were made.'' = 0 \<and>
   count_public_comments ''Page 12'' = 0"
proof -
  have a: "has_no_comments ''No comments were made.''"
    by code_simp
  have b: "is_only_admin_content ''Page 12''"
    by code_simp
  from a count_zero_when_classified_empty [of "''No comments were made.''"]
  have c: "count_public_comments ''No comments were made.'' = 0"
    by blast
  from b count_zero_when_classified_empty [of "''Page 12''"]
  have d: "count_public_comments ''Page 12'' = 0"
    by blast
  from a b c d show ?thesis
    by blast
qed

text \<open>Trimming a trimmed text changes nothing.\<close>

lemma rstrip_prefix: "\<exists>t. s = rstrip s @ t"
proof -
  have "rev (takeWhile is_space (rev s) @ dropWhile is_space (rev s)) = s"
    by (simp only: takeWhile_dropWhile_id rev_rev_ident)
  then have "rev (dropWhile is_space (rev s)) @ rev (takeWhile is_space (rev s)) = s"
    by (simp only: rev_append)
  then show ?thesis
    unfolding rstrip_def by (intro exI) (rule sym)
qed

lemma strip_idem: "strip (strip s) = strip s"
proof -
  have r: "rstrip (rstrip u) = rstrip u" for u
    by (simp add: rstrip_def)
  have l: "lstrip (rstrip (lstrip s)) = rstrip (lstrip s)"
  proof (cases "rstrip (lstrip s)")
    case Nil
    then show ?thesis by (simp add: lstrip_def)
  next
    case (Cons c cs)
    from rstrip_prefix [of "lstrip s"] Cons obtain t where t: "lstrip s = c # cs @ t"
      by auto
    then have "\<not> is_space c"
      using hd_dropWhile [of is_space s] by (auto simp: lstrip_def)
    then show ?thesis
      using Cons by (simp add: lstrip_def)
  qed
  show ?thesis
    by (simp add: strip_def l r)
qed

text \<open>
  C6. The per-paragraph administrative check never discards a long paragraph. The text
  of a paragraph is the paragraph without its leading and trailing whitespace: this is
  what \<open>is_admin_paragraph\<close> measures, and the segmenter passes it the paragraph already
  trimmed. For every paragraph whose text is longer than 100 characters,
  \<open>is_admin_paragraph\<close> returns false, on the paragraph itself and on the trimmed
  paragraph that the segmenter passes, however much administrative boilerplate it
  contains.
\<close>

theorem long_paragraph_never_admin:
  "100 < length (strip paragraph) \<Longrightarrow>
   \<not> is_admin_paragraph paragraph \<and> \<not> is_admin_paragraph (strip paragraph)"
  by (simp add: is_admin_paragraph_def Let_def lower_def strip_idem)

theorem long_paragraph_never_admin_witness:
  "100 < length (strip (concat (replicate 20 ''page 5 ''))) \<and>
   \<not> is_admin_paragraph (concat (replicate 20 ''page 5 '')) \<and>
   \<not> is_admin_paragraph (strip (concat (replicate 20 ''page 5 '')))"
proof -
  have h: "100 < length (strip (concat (replicate 20 ''page 5 '')))"
    by code_simp
  from long_paragraph_never_admin [OF h] h show ?thesis
    by blast
qed

subsection \<open>Word-bounded occurrences of a phrase\<close>

text \<open>
  The reading of "the span contains the phrase as a word-bounded, case-insensitive
  occurrence" that the program is compared with: at some position the text spells the
  phrase up to case, with a word boundary before and after it.
\<close>

definition last_opt :: "char option \<Rightarrow> string \<Rightarrow> char option" where
  "last_opt p s = (if s = [] then p else Some (last s))"

definition occurs_at :: "string \<Rightarrow> char option \<Rightarrow> string \<Rightarrow> bool" where
  "occurs_at phrase p rest =
     (let mid = take (length phrase) rest in
      length mid = length phrase \<and> lower mid = lower phrase \<and>
      boundary p rest \<and> boundary (last_opt p mid) (drop (length phrase) rest))"

fun occurs_from :: "string \<Rightarrow> char option \<Rightarrow> string \<Rightarrow> bool" where
  "occurs_from phrase p [] = occurs_at phrase p []"
| "occurs_from phrase p (c # cs) = (occurs_at phrase p (c # cs) \<or> occurs_from phrase (Some c) cs)"

definition contains_phrase :: "string \<Rightarrow> string \<Rightarrow> bool" where
  "contains_phrase phrase t = occurs_from phrase None t"

definition phrases1 :: "string list" where
  "phrases1 =
     [''no open forum'', ''no comment'', ''no comments'', ''none'', ''n/a'', ''na'',
      ''not applicable'']"

definition phrases2 :: "string list" where
  "phrases2 = [''no public comment'', ''no discussion'', ''no speaker'', ''no speakers'']"

definition phrases3 :: "string list" where
  "phrases3 = [''no one spoke'', ''no attendees'', ''no participants'']"

definition no_comment_phrases :: "string list" where
  "no_comment_phrases = phrases1 @ phrases2 @ phrases3"

definition end_state :: "string \<Rightarrow> mstate \<Rightarrow> mstate" where
  "end_state ph s = (case s of (i, p, rest, g) \<Rightarrow>
     (i + length ph, last_opt p (take (length ph) rest), drop (length ph) rest, g))"

subsection \<open>The patterns find every word-bounded occurrence\<close>

lemma lit_match_lower:
  "length s \<le> length rest \<Longrightarrow> lower (take (length s) rest) = lower s \<Longrightarrow>
   lit_match flag_i s (i, p, rest) =
     Some (i + length s, last_opt p (take (length s) rest), drop (length s) rest)"
proof (induction s arbitrary: i p rest)
  case Nil
  then show ?case by (simp add: last_opt_def)
next
  case (Cons x xs)
  then obtain c cs where r: "rest = c # cs" by (cases rest) auto
  with Cons.prems have "lower_char c = lower_char x" "length xs \<le> length cs"
    "lower (take (length xs) cs) = lower xs"
    by (auto simp: lower_def)
  with Cons.IH [of cs "Suc i" "Some c"] r show ?case
    by (auto simp: flag_i_def last_opt_def)
qed

lemma str_reach:
  "length ph \<le> length rest \<Longrightarrow> lower (take (length ph) rest) = lower ph \<Longrightarrow>
   rmatch flag_i (Str ph) (i, p, rest, g) = [end_state ph (i, p, rest, g)]"
  by (simp add: lit_match_lower end_state_def)

lemma rep_run_head: "\<exists>cs. rep_run f c hi cu = cu # cs"
  by (cases "(f, c, hi, cu)" rule: rep_run.cases) auto

lemma opt_zero: "(i, p, rest, g) \<in> set (rmatch f (optional c) (i, p, rest, g))"
proof -
  obtain cs where "rep_run f c (Some 1) (i, p, rest) = (i, p, rest) # cs"
    using rep_run_head by blast
  then show ?thesis by (simp add: optional_def)
qed

lemma opt_one:
  "cls_match f c x \<Longrightarrow> (Suc i, Some x, xs, g) \<in> set (rmatch f (optional c) (i, p, x # xs, g))"
  by (cases xs) (simp_all add: optional_def)

lemma cat_reach:
  "s1 \<in> set (rmatch f a s) \<Longrightarrow> s2 \<in> set (rmatch f b s1) \<Longrightarrow> s2 \<in> set (rmatch f (Cat a b) s)"
  by auto

lemma alts_reach:
  "r \<in> set rs \<Longrightarrow> s' \<in> set (rmatch f r s) \<Longrightarrow> s' \<in> set (rmatch f (alts rs) s)"
  by (induction rs rule: alts.induct) auto

lemma last_opt_snoc: "last_opt p (ys @ [x]) = Some x"
  by (simp add: last_opt_def)

lemma str_opt_short:
  assumes "length ph \<le> length rest" "lower (take (length ph) rest) = lower ph"
  shows "end_state ph (i, p, rest, g) \<in> set (rmatch flag_i (seq [Str ph, optional c]) (i, p, rest, g))"
proof -
  have "end_state ph (i, p, rest, g) \<in> set (rmatch flag_i (Str ph) (i, p, rest, g))"
    using assms by (simp add: str_reach del: rmatch.simps)
  moreover have "end_state ph (i, p, rest, g) \<in> set (rmatch flag_i (optional c) (end_state ph (i, p, rest, g)))"
    by (simp add: end_state_def opt_zero)
  ultimately show ?thesis
    using cat_reach [of _ flag_i "Str ph" _ _ "optional c"] by (simp del: rmatch.simps)
qed

lemma str_opt_long:
  assumes "Suc (length ph) \<le> length rest" "lower (take (Suc (length ph)) rest) = lower (ph @ [c])"
  shows "end_state (ph @ [c]) (i, p, rest, g) \<in>
           set (rmatch flag_i (seq [Str ph, optional (CLit c)]) (i, p, rest, g))"
proof -
  from assms(1) obtain x xs where d: "drop (length ph) rest = x # xs"
    by (cases "drop (length ph) rest") auto
  then have t: "take (Suc (length ph)) rest = take (length ph) rest @ [x]"
    by (metis append_take_drop_id assms(1) append_eq_conv_conj hd_drop_conv_nth list.sel(1) not_less_eq_eq not_less take_Suc_conv_app_nth take_hd_drop Suc_le_lessD)
  from assms(2) t have l: "lower (take (length ph) rest) = lower ph" "lower_char x = lower_char c"
    by (auto simp: lower_def)
  have len: "length ph \<le> length rest" using assms(1) by simp
  have 1: "end_state ph (i, p, rest, g) \<in> set (rmatch flag_i (Str ph) (i, p, rest, g))"
    using len l by (simp add: str_reach del: rmatch.simps)
  have xs: "drop (Suc (length ph)) rest = xs"
    using d by (metis drop_Suc list.sel(3) tl_drop)
  have "(Suc (i + length ph), Some x, xs, g) \<in>
          set (rmatch flag_i (optional (CLit c)) (i + length ph, last_opt p (take (length ph) rest), x # xs, g))"
    by (rule opt_one) (simp add: l flag_i_def)
  then have 2: "end_state (ph @ [c]) (i, p, rest, g) \<in> set (rmatch flag_i (optional (CLit c)) (end_state ph (i, p, rest, g)))"
    by (simp add: end_state_def d t xs last_opt_snoc del: rmatch.simps)
  from cat_reach [OF 1 2] show ?thesis
    by (simp del: rmatch.simps)
qed


lemma lower_cons_eq:
  "lower (take (Suc n) rest) = x # xs \<Longrightarrow> Suc n \<le> length rest \<Longrightarrow>
   \<exists>c cs. rest = c # cs \<and> lower_char c = x \<and> lower (take n cs) = xs"
  by (cases rest) (auto simp: lower_def)

lemma n_a_short:
  assumes "2 \<le> length rest" "lower (take 2 rest) = ''na''"
  shows "end_state ''na'' (i, p, rest, g) \<in> set (rmatch flag_i n_a (i, p, rest, g))"
proof -
  from assms obtain a b r where r: "rest = a # b # r" "lower_char a = CHR ''n''"
    "lower_char b = CHR ''a''"
    by (cases rest; cases "tl rest") (auto simp: lower_def)
  then show ?thesis
    by (simp add: n_a_def optional_def end_state_def last_opt_def flag_i_def
        lower_char_code is_upper_code)
qed

lemma n_a_long:
  assumes "3 \<le> length rest" "lower (take 3 rest) = ''n/a''"
  shows "end_state ''n/a'' (i, p, rest, g) \<in> set (rmatch flag_i n_a (i, p, rest, g))"
proof -
  from assms obtain a b c r where r: "rest = a # b # c # r" "lower_char a = CHR ''n''"
    "lower_char b = CHR ''/''" "lower_char c = CHR ''a''"
    by (cases rest; cases "tl rest"; cases "tl (tl rest)") (auto simp: lower_def)
  then show ?thesis
    by (simp add: n_a_def optional_def end_state_def last_opt_def flag_i_def
        lower_char_code is_upper_code)
qed

lemma group_wb:
  assumes "boundary p rest"
    and "(j, q, rest', g') \<in> set (rmatch f A (i, p, rest, []))"
    and "boundary q rest'"
  shows "match_here f (seq [Wb, Grp 1 A, Wb]) (i, p, rest) \<noteq> None"
proof -
  have "(j, q, rest', (1, i, j) # g') \<in> set (rmatch f (seq [Wb, Grp 1 A, Wb]) (i, p, rest, []))"
    using assms by force
  then have "rmatch f (seq [Wb, Grp 1 A, Wb]) (i, p, rest, []) \<noteq> []"
    by (metis empty_iff empty_set)
  then show ?thesis
    by (auto simp add: match_here_def simp del: rmatch.simps seq.simps split: list.splits)
qed

lemma occurs_lower_literal:
  "lower ph = ph \<Longrightarrow> occurs_at ph p rest \<Longrightarrow>
   length ph \<le> length rest \<and> lower (take (length ph) rest) = ph \<and> boundary p rest \<and>
   (\<forall>i g. \<exists>q rest'. end_state ph (i, p, rest, g) = (i + length ph, q, rest', g) \<and> boundary q rest')"
  by (auto simp: occurs_at_def Let_def end_state_def)

lemma occurs_group_match:
  assumes occ: "occurs_at ph p rest"
    and reach: "end_state ph (i, p, rest, []) \<in> set (rmatch f A (i, p, rest, []))"
  shows "match_here f (seq [Wb, Grp 1 A, Wb]) (i, p, rest) \<noteq> None"
proof -
  from occ have b: "boundary p rest"
    "boundary (last_opt p (take (length ph) rest)) (drop (length ph) rest)"
    by (auto simp: occurs_at_def Let_def)
  from reach have "(i + length ph, last_opt p (take (length ph) rest), drop (length ph) rest, [])
      \<in> set (rmatch f A (i, p, rest, []))"
    by (simp add: end_state_def del: rmatch.simps)
  from group_wb [OF b(1) this b(2)] show ?thesis .
qed

lemma occurs_len: "occurs_at ph p rest \<Longrightarrow> length ph \<le> length rest \<and> lower (take (length ph) rest) = lower ph"
  by (auto simp: occurs_at_def Let_def)

lemma lower_literals:
  "lower ''no open forum'' = ''no open forum''"
  "lower ''no comment'' = ''no comment''"
  "lower ''no comments'' = ''no comments''"
  "lower ''none'' = ''none''"
  "lower ''n/a'' = ''n/a''"
  "lower ''na'' = ''na''"
  "lower ''not applicable'' = ''not applicable''"
  "lower ''no public comment'' = ''no public comment''"
  "lower ''no discussion'' = ''no discussion''"
  "lower ''no speaker'' = ''no speaker''"
  "lower ''no speakers'' = ''no speakers''"
  "lower ''no one spoke'' = ''no one spoke''"
  "lower ''no attendees'' = ''no attendees''"
  "lower ''no participants'' = ''no participants''"
  by code_simp+

lemma pattern1_phrases:
  assumes "ph \<in> set phrases1"
    and occ: "occurs_at ph p rest"
  shows "match_here flag_i no_comment_pattern1 (i, p, rest) \<noteq> None"
proof -
  let ?s = "(i, p, rest, [])"
  let ?A = "[Str ''no open forum'', seq [Str ''no comment'', optional (CLit CHR ''s'')], Str ''none'',
             n_a, Str ''not applicable'']"
  note l = occurs_len [OF occ]
  have "end_state ph ?s \<in> set (rmatch flag_i (alts ?A) ?s)"
    using assms(1) unfolding phrases1_def list.set
  proof (elim insertE emptyE)
    assume e: "ph = ''no open forum''"
    have "end_state ph ?s \<in> set (rmatch flag_i (Str ph) ?s)"
      using l by (simp add: str_reach del: rmatch.simps)
    then show ?thesis unfolding e by (rule alts_reach [rotated]) simp
  next
    assume e: "ph = ''no comment''"
    have "end_state ph ?s \<in> set (rmatch flag_i (seq [Str ph, optional (CLit CHR ''s'')]) ?s)"
      using l by (intro str_opt_short) auto
    then show ?thesis unfolding e by (rule alts_reach [rotated]) simp
  next
    assume e: "ph = ''no comments''"
    have h: "end_state (''no comment'' @ ''s'') ?s
            \<in> set (rmatch flag_i (seq [Str ''no comment'', optional (CLit CHR ''s'')]) ?s)"
      using l unfolding e by (intro str_opt_long) auto
    have m: "seq [Str ''no comment'', optional (CLit CHR ''s'')] \<in> set ?A"
      by simp
    from alts_reach [OF m h] show ?thesis unfolding e
      by (simp del: rmatch.simps alts.simps seq.simps)
  next
    assume e: "ph = ''none''"
    have "end_state ph ?s \<in> set (rmatch flag_i (Str ph) ?s)"
      using l by (simp add: str_reach del: rmatch.simps)
    then show ?thesis unfolding e by (rule alts_reach [rotated]) simp
  next
    assume e: "ph = ''n/a''"
    have "end_state ph ?s \<in> set (rmatch flag_i n_a ?s)"
      using l unfolding e by (intro n_a_long) (auto simp: lower_literals eval_nat_numeral)
    then show ?thesis unfolding e by (rule alts_reach [rotated]) simp
  next
    assume e: "ph = ''na''"
    have "end_state ph ?s \<in> set (rmatch flag_i n_a ?s)"
      using l unfolding e by (intro n_a_short) (auto simp: lower_literals eval_nat_numeral)
    then show ?thesis unfolding e by (rule alts_reach [rotated]) simp
  next
    assume e: "ph = ''not applicable''"
    have "end_state ph ?s \<in> set (rmatch flag_i (Str ph) ?s)"
      using l by (simp add: str_reach del: rmatch.simps)
    then show ?thesis unfolding e by (rule alts_reach [rotated]) simp
  qed
  from occurs_group_match [OF occ this] show ?thesis
    by (simp add: no_comment_pattern1_def del: seq.simps alts.simps)
qed


lemma pattern2_phrases:
  assumes "ph \<in> set phrases2"
    and occ: "occurs_at ph p rest"
  shows "match_here flag_i no_comment_pattern2 (i, p, rest) \<noteq> None"
proof -
  let ?s = "(i, p, rest, [])"
  let ?A = "[Str ''no public comment'', Str ''no discussion'',
             seq [Str ''no speaker'', optional (CLit CHR ''s'')]]"
  note l = occurs_len [OF occ]
  have "end_state ph ?s \<in> set (rmatch flag_i (alts ?A) ?s)"
    using assms(1) unfolding phrases2_def list.set
  proof (elim insertE emptyE)
    assume e: "ph = ''no public comment''"
    have "end_state ph ?s \<in> set (rmatch flag_i (Str ph) ?s)"
      using l by (simp add: str_reach del: rmatch.simps)
    then show ?thesis unfolding e by (rule alts_reach [rotated]) simp
  next
    assume e: "ph = ''no discussion''"
    have "end_state ph ?s \<in> set (rmatch flag_i (Str ph) ?s)"
      using l by (simp add: str_reach del: rmatch.simps)
    then show ?thesis unfolding e by (rule alts_reach [rotated]) simp
  next
    assume e: "ph = ''no speaker''"
    have "end_state ph ?s \<in> set (rmatch flag_i (seq [Str ph, optional (CLit CHR ''s'')]) ?s)"
      using l by (intro str_opt_short) auto
    then show ?thesis unfolding e by (rule alts_reach [rotated]) simp
  next
    assume e: "ph = ''no speakers''"
    have h: "end_state (''no speaker'' @ ''s'') ?s
            \<in> set (rmatch flag_i (seq [Str ''no speaker'', optional (CLit CHR ''s'')]) ?s)"
      using l unfolding e by (intro str_opt_long) auto
    have m: "seq [Str ''no speaker'', optional (CLit CHR ''s'')] \<in> set ?A"
      by simp
    from alts_reach [OF m h] show ?thesis unfolding e
      by (simp del: rmatch.simps alts.simps seq.simps)
  qed
  from occurs_group_match [OF occ this] show ?thesis
    by (simp add: no_comment_pattern2_def del: seq.simps alts.simps)
qed

lemma pattern3_phrases:
  assumes "ph \<in> set phrases3"
    and occ: "occurs_at ph p rest"
  shows "match_here flag_i no_comment_pattern3 (i, p, rest) \<noteq> None"
proof -
  let ?s = "(i, p, rest, [])"
  let ?A = "[Str ''no one spoke'', Str ''no attendees'', Str ''no participants'']"
  note l = occurs_len [OF occ]
  have h: "end_state ph ?s \<in> set (rmatch flag_i (Str ph) ?s)"
    using l by (simp add: str_reach del: rmatch.simps)
  have m: "Str ph \<in> set ?A"
    using assms(1) unfolding phrases3_def list.set by (elim insertE emptyE) simp_all
  from occurs_group_match [OF occ alts_reach [OF m h]] show ?thesis
    by (simp add: no_comment_pattern3_def del: seq.simps alts.simps)
qed

lemma search_from_occurs:
  assumes m: "\<And>i p rest. occurs_at ph p rest \<Longrightarrow> match_here f r (i, p, rest) \<noteq> None"
  shows "occurs_from ph p rest \<Longrightarrow> search_from f r i p rest \<noteq> None"
proof (induction rest arbitrary: i p)
  case Nil
  then show ?case using m by simp
next
  case (Cons c cs)
  show ?case
  proof (cases "occurs_at ph p (c # cs)")
    case True
    from m [OF this, of i] show ?thesis by auto
  next
    case False
    with Cons.prems have "occurs_from ph (Some c) cs" by simp
    from Cons.IH [OF this] show ?thesis by (auto split: option.splits)
  qed
qed

lemma any_search_member:
  "r \<in> set ps \<Longrightarrow> re_search f r t \<noteq> None \<Longrightarrow> any_search f ps t"
  by (induction ps) (auto split: option.splits)

lemma phrase_found:
  assumes "phrase \<in> set no_comment_phrases" "contains_phrase phrase t"
  shows "has_no_comments t"
proof -
  from assms(1) consider (a) "phrase \<in> set phrases1" | (b) "phrase \<in> set phrases2"
    | (c) "phrase \<in> set phrases3"
    unfolding no_comment_phrases_def set_append Un_iff by blast
  then obtain r where r: "r \<in> set no_comment_patterns"
    and m: "\<And>i p rest. occurs_at phrase p rest \<Longrightarrow> match_here flag_i r (i, p, rest) \<noteq> None"
  proof cases
    case a
    show ?thesis
      by (rule that [of no_comment_pattern1]) (simp add: no_comment_patterns_def, rule pattern1_phrases [OF a])
  next
    case b
    show ?thesis
      by (rule that [of no_comment_pattern2]) (simp add: no_comment_patterns_def, rule pattern2_phrases [OF b])
  next
    case c
    show ?thesis
      by (rule that [of no_comment_pattern3]) (simp add: no_comment_patterns_def, rule pattern3_phrases [OF c])
  qed
  from assms(2) have "occurs_from phrase None t"
    by (simp add: contains_phrase_def)
  from search_from_occurs [of phrase flag_i r, OF m this]
  have "re_search flag_i r t \<noteq> None"
    by (simp add: re_search_def)
  from any_search_member [OF r this] show ?thesis
    by (simp add: has_no_comments_def)
qed

text \<open>
  C9. The explicit no-comments check fires on containment, not on a match of the whole
  text: if a span contains anywhere a word-bounded, case-insensitive occurrence of one of
  the phrases "no open forum", "no comment", "no comments", "none", "n/a", "na",
  "not applicable", "no public comment", "no discussion", "no speaker", "no speakers",
  "no one spoke", "no attendees" or "no participants", then \<open>count_public_comments\<close>
  returns 0, whatever else the span contains.
\<close>

theorem no_comment_phrase_forces_zero:
  "phrase \<in> set no_comment_phrases \<Longrightarrow> contains_phrase phrase t \<Longrightarrow>
   count_public_comments t = 0"
  using phrase_found by (simp add: count_public_comments_def)

theorem no_comment_phrase_forces_zero_witness:
  "''none'' \<in> set no_comment_phrases \<and>
   contains_phrase ''none'' ''Maria Lopez asked why none of the campus shuttles run after nine in the evening.'' \<and>
   count_public_comments ''Maria Lopez asked why none of the campus shuttles run after nine in the evening.'' = 0"
proof -
  have a: "''none'' \<in> set no_comment_phrases"
    by (simp add: no_comment_phrases_def phrases1_def)
  have b: "contains_phrase ''none'' ''Maria Lopez asked why none of the campus shuttles run after nine in the evening.''"
    by code_simp
  from a b no_comment_phrase_forces_zero [OF a b] show ?thesis
    by blast
qed

subsection \<open>Two plain paragraphs\<close>

definition para_none :: string where "para_none = ''Alice said none of the lots were open.''"
definition para_library :: string where "para_library = ''Bob asked about the library hours.''"
definition para_parking :: string where "para_parking = ''Alice said that the parking lots were closed.''"

lemma strip_eq_Nil: "strip x = [] \<longleftrightarrow> (\<forall>c\<in>set x. is_space c)"
proof -
  have "(\<forall>c\<in>set (dropWhile is_space x). is_space c) \<longleftrightarrow> (\<forall>c\<in>set x. is_space c)"
  proof
    assume a: "\<forall>c\<in>set (dropWhile is_space x). is_space c"
    have "dropWhile is_space x = []"
    proof (rule ccontr)
      assume n: "dropWhile is_space x \<noteq> []"
      then have "\<not> is_space (hd (dropWhile is_space x))" by (rule hd_dropWhile)
      with a n show False by (meson hd_in_set)
    qed
    then show "\<forall>c\<in>set x. is_space c" by (simp add: dropWhile_eq_Nil_conv)
  next
    assume "\<forall>c\<in>set x. is_space c"
    then show "\<forall>c\<in>set (dropWhile is_space x). is_space c"
      by (meson set_dropWhileD)
  qed
  then show ?thesis
    by (simp add: strip_def rstrip_def lstrip_def dropWhile_eq_Nil_conv)
qed

lemma strip_strip_nonempty: "strip x \<noteq> [] \<Longrightarrow> strip (strip x) \<noteq> []"
proof -
  assume a: "strip x \<noteq> []"
  let ?y = "dropWhile is_space (rev (lstrip x))"
  have sx: "strip x = rev ?y" by (simp add: strip_def rstrip_def)
  with a have ne: "?y \<noteq> []" by simp
  then have "\<not> is_space (hd ?y)" by (rule hd_dropWhile)
  moreover have "hd ?y \<in> set (strip x)" using ne by (simp add: sx)
  ultimately show ?thesis by (auto simp: strip_eq_Nil)
qed

lemma single_comment_length: "strip para \<noteq> [] \<Longrightarrow> length (single_comment (strip para)) = 1"
  by (simp add: single_comment_def strip_strip_nonempty)

lemma valid_unsplit_paragraph:
  assumes "20 < length (strip p)" "split_points (strip p) = []"
  shows "length (split_by_clear_boundaries (strip p)) = 1"
proof -
  from assms(1) have "strip p \<noteq> []" by auto
  then show ?thesis
    using assms(2) by (simp add: split_by_clear_boundaries_def single_comment_length)
qed

text \<open>
  C4, as stated, fails: two paragraphs of more than 20 characters, neither of them
  administrative by any of the program's checks, with a blank line between them and no
  speaker boundary, count as 0 when one of them contains the word "none".
\<close>

theorem two_paragraphs_counterexample:
  "paragraphs_of (para_none @ [nl, nl] @ para_library) = [para_none, para_library] \<and>
   20 < length (strip para_none) \<and> 20 < length (strip para_library) \<and>
   re_match flag_i page_line (strip para_none) = None \<and>
   re_match flag_i page_line (strip para_library) = None \<and>
   \<not> is_admin_paragraph (strip para_none) \<and> \<not> is_admin_paragraph (strip para_library) \<and>
   \<not> is_only_admin_content para_none \<and> \<not> is_only_admin_content para_library \<and>
   \<not> is_only_admin_content (para_none @ [nl, nl] @ para_library) \<and>
   split_points (strip para_none) = [] \<and> split_points (strip para_library) = [] \<and>
   count_public_comments (para_none @ [nl, nl] @ para_library) = 0"
  by code_simp

text \<open>
  C4, amended. For every input that the classifier does not mark as empty (neither
  \<open>has_no_comments\<close> nor \<open>is_only_admin_content\<close> holds of it) and that consists of
  exactly two paragraphs separated by a blank line, each with trimmed length above 20
  and non-administrative, with no speaker boundary inside either paragraph,
  \<open>count_public_comments\<close> returns 2.
\<close>

theorem two_paragraphs_count_two:
  assumes "\<not> has_no_comments t" and "\<not> is_only_admin_content t"
    and "paragraphs_of t = [p1, p2]"
    and "20 < length (strip p1)" and "20 < length (strip p2)"
    and "re_match flag_i page_line (strip p1) = None"
    and "re_match flag_i page_line (strip p2) = None"
    and "\<not> is_admin_paragraph (strip p1)" and "\<not> is_admin_paragraph (strip p2)"
    and "split_points (strip p1) = []" and "split_points (strip p2) = []"
  shows "count_public_comments t = 2"
proof -
  have v: "is_valid_paragraph (strip p1)" "is_valid_paragraph (strip p2)"
    using assms by (simp_all add: is_valid_paragraph_def)
  have l: "length (split_by_clear_boundaries (strip p1)) = 1"
    "length (split_by_clear_boundaries (strip p2)) = 1"
    using assms by (simp_all add: valid_unsplit_paragraph)
  have "is_only_admin_content []"
    by code_simp
  with assms(2) have "t \<noteq> []"
    by auto
  with assms(1,2,3) v l show ?thesis
    by (simp add: count_public_comments_def Let_def)
qed

theorem two_paragraphs_count_two_witness:
  "\<not> has_no_comments (para_parking @ [nl, nl] @ para_library) \<and>
   \<not> is_only_admin_content (para_parking @ [nl, nl] @ para_library) \<and>
   paragraphs_of (para_parking @ [nl, nl] @ para_library) = [para_parking, para_library] \<and>
   20 < length (strip para_parking) \<and> 20 < length (strip para_library) \<and>
   re_match flag_i page_line (strip para_parking) = None \<and>
   re_match flag_i page_line (strip para_library) = None \<and>
   \<not> is_admin_paragraph (strip para_parking) \<and> \<not> is_admin_paragraph (strip para_library) \<and>
   split_points (strip para_parking) = [] \<and> split_points (strip para_library) = [] \<and>
   count_public_comments (para_parking @ [nl, nl] @ para_library) = 2"
proof -
  have h: "\<not> has_no_comments (para_parking @ [nl, nl] @ para_library)"
    "\<not> is_only_admin_content (para_parking @ [nl, nl] @ para_library)"
    "paragraphs_of (para_parking @ [nl, nl] @ para_library) = [para_parking, para_library]"
    "20 < length (strip para_parking)" "20 < length (strip para_library)"
    "re_match flag_i page_line (strip para_parking) = None"
    "re_match flag_i page_line (strip para_library) = None"
    "\<not> is_admin_paragraph (strip para_parking)" "\<not> is_admin_paragraph (strip para_library)"
    "split_points (strip para_parking) = []" "split_points (strip para_library) = []"
    by code_simp+
  from two_paragraphs_count_two [OF h] h show ?thesis
    by blast
qed

section \<open>Properties of the section locator and the date extractor\<close>

subsection \<open>Groups that every match captures\<close>

text \<open>
  \<open>sure r\<close> are the groups that take part in every match of \<open>r\<close>. A group outside an
  alternation is always captured, so \<^verbatim>\<open>match.group(k)\<close> is never \<^verbatim>\<open>None\<close> for the
  groups the program reads.
\<close>

fun sure :: "regex \<Rightarrow> nat set" where
  "sure (Grp k r) = insert k (sure r)"
| "sure (Cat a b) = sure a \<union> sure b"
| "sure (Alt a b) = sure a \<inter> sure b"
| "sure (Ahead r) = sure r"
| "sure (One c) = {}"
| "sure (Str s) = {}"
| "sure (Rep c lo hi gr) = {}"
| "sure (Behind c) = {}"
| "sure Bos = {}"
| "sure Eol = {}"
| "sure Eos = {}"
| "sure Wb = {}"

lemma rmatch_caps:
  "(j, q, rest', g') \<in> set (rmatch f r (i, p, rest, g)) \<Longrightarrow>
   fst ` set g \<union> sure r \<subseteq> fst ` set g'"
proof (induction r arbitrary: i p rest g j q rest' g')
  case (One c)
  then have "g' = g" by (auto split: list.splits if_splits)
  then show ?case by simp
next
  case (Str s)
  then have "g' = g" by (auto split: option.splits)
  then show ?case by simp
next
  case (Rep c lo hi gr)
  then have "g' = g" by (auto simp: Let_def)
  then show ?case by simp
next
  case (Cat a b)
  from Cat.prems obtain i1 p1 r1 g1 where
    1: "(i1, p1, r1, g1) \<in> set (rmatch f a (i, p, rest, g))"
    and 2: "(j, q, rest', g') \<in> set (rmatch f b (i1, p1, r1, g1))"
    by auto
  from Cat.IH(1) [OF 1] Cat.IH(2) [OF 2] show ?case unfolding sure.simps by blast
next
  case (Alt a b)
  from Alt.prems have "(j, q, rest', g') \<in> set (rmatch f a (i, p, rest, g)) \<or>
    (j, q, rest', g') \<in> set (rmatch f b (i, p, rest, g))"
    by simp
  with Alt.IH(1) Alt.IH(2) show ?case unfolding sure.simps by blast
next
  case (Grp k r)
  from Grp.prems obtain g0 where
    1: "(j, q, rest', g0) \<in> set (rmatch f r (i, p, rest, g))" and 2: "g' = (k, i, j) # g0"
    by auto
  from Grp.IH [OF 1] 2 show ?case by auto
next
  case (Ahead r)
  from Ahead.prems obtain j0 q0 r0 where
    "(j0, q0, r0, g') \<in> set (rmatch f r (i, p, rest, g))"
    by (auto split: list.splits) (metis list.set_intros(1))
  from Ahead.IH [OF this] show ?case by simp
next
  case (Behind c)
  then have "g' = g" by (auto split: option.splits if_splits)
  then show ?case by simp
next
  case Bos
  then have "g' = g" by (auto split: if_splits)
  then show ?case by simp
next
  case Eol
  then have "g' = g" by (auto split: if_splits)
  then show ?case by simp
next
  case Eos
  then have "g' = g" by (auto split: if_splits)
  then show ?case by simp
next
  case Wb
  then have "g' = g" by (auto split: if_splits)
  then show ?case by simp
qed

lemma match_here_caps:
  "match_here f r cu = Some (m, cu') \<Longrightarrow> sure r \<subseteq> fst ` set (m_caps m)"
proof -
  assume a: "match_here f r cu = Some (m, cu')"
  obtain i p rest where cu: "cu = (i, p, rest)" by (cases cu) auto
  from a cu obtain j q rest' g xs where
    r: "rmatch f r (i, p, rest, []) = (j, q, rest', g) # xs" and m: "m_caps m = g"
    by (auto simp: match_here_def split: list.splits)
  from r have "(j, q, rest', g) \<in> set (rmatch f r (i, p, rest, []))" by simp
  from rmatch_caps [OF this] m show ?thesis by simp
qed

lemma search_from_caps:
  "search_from f r i p rest = Some (m, cu') \<Longrightarrow> sure r \<subseteq> fst ` set (m_caps m)"
  by (induction rest arbitrary: i p) (auto split: option.splits dest: match_here_caps)

lemma re_search_caps:
  "re_search f r t = Some m \<Longrightarrow> sure r \<subseteq> fst ` set (m_caps m)"
  by (auto simp: re_search_def dest: search_from_caps)

lemma finditer_from_caps:
  "m \<in> set (finditer_from f r i p rest) \<Longrightarrow> sure r \<subseteq> fst ` set (m_caps m)"
proof (induction "length rest" arbitrary: rest i p rule: less_induct)
  case less
  from less.prems have mem: "m \<in> set (case match_here f r (i, p, rest) of
        Some (m, (j, q, rest')) \<Rightarrow>
          (if length rest' < length rest then m # finditer_from f r j q rest'
           else (case rest of
                   [] \<Rightarrow> [m]
                 | x # xs \<Rightarrow> m # finditer_from f r (Suc i) (Some x) xs))
      | None \<Rightarrow>
          (case rest of
             [] \<Rightarrow> []
           | x # xs \<Rightarrow> finditer_from f r (Suc i) (Some x) xs))"
    by (subst (asm) finditer_from.simps) simp
  show ?case
  proof (cases "match_here f r (i, p, rest)")
    case None
    with mem obtain x xs where "rest = x # xs" "m \<in> set (finditer_from f r (Suc i) (Some x) xs)"
      by (auto split: list.splits)
    with less.hyps [of xs "Suc i" "Some x"] show ?thesis by simp
  next
    case (Some a)
    obtain m0 j q rest' where a: "a = (m0, j, q, rest')" by (cases a) auto
    note c = match_here_caps [OF Some [unfolded a]]
    show ?thesis
    proof (cases "m = m0")
      case True
      with c show ?thesis by simp
    next
      case False
      show ?thesis
      proof (cases "length rest' < length rest")
        case True
        with mem Some a False have "m \<in> set (finditer_from f r j q rest')" by simp
        with less.hyps [OF True] show ?thesis by simp
      next
        case F: False
        with mem Some a False obtain x xs where
          "rest = x # xs" "m \<in> set (finditer_from f r (Suc i) (Some x) xs)"
          by (auto split: list.splits)
        with less.hyps [of xs "Suc i" "Some x"] show ?thesis by simp
      qed
    qed
  qed
qed

lemma group_sure:
  "k \<in> fst ` set (m_caps m) \<Longrightarrow> \<exists>s. match_group t m k = Some s"
  by (cases "map_of (m_caps m) k") (auto simp: match_group_def map_of_eq_None_iff)

subsection \<open>The section locator\<close>

definition sample_minutes :: string where
  "sample_minutes =
     ''V. Open Forum'' @ [nl] @ ''John asked about parking.'' @ [nl] @
     ''VI. Discussion Items'' @ [nl] @ ''...''"

definition minutes_without_forum :: string where
  "minutes_without_forum =
     ''I. Call to order'' @ [nl] @ ''The meeting began at noon.'' @ [nl] @ ''II. Roll call''"

lemma first_section_none:
  "\<forall>p\<in>set ps. re_search flag_is p t = None \<Longrightarrow> first_section ps t = Inr None"
  by (induction ps) simp_all

lemma open_forum_patterns_sure: "list_all (\<lambda>pat. 1 \<in> sure pat) open_forum_patterns"
  by (simp add: open_forum_patterns_def lazy_any_def dot_def zero_or_more_def one_or_more_def exactly_def
      garbled_header_def open_forum_any_case_def)

lemma first_section_total:
  "list_all (\<lambda>pat. 1 \<in> sure pat) ps \<Longrightarrow> \<exists>r. first_section ps t = Inr r"
proof (induction ps)
  case Nil
  then show ?case by simp
next
  case (Cons p ps)
  show ?case
  proof (cases "re_search flag_is p t")
    case None
    with Cons show ?thesis by simp
  next
    case (Some m)
    from re_search_caps [OF Some] Cons.prems have "1 \<in> fst ` set (m_caps m)"
      by auto
    from group_sure [OF this, of t] Some show ?thesis
      by auto
  qed
qed

lemma extract_open_forum_section_total: "\<exists>r. extract_open_forum_section t = Inr r"
  unfolding extract_open_forum_section_def
  using open_forum_patterns_sure by (rule first_section_total)

text \<open>
  C3. The section locator returns \<open>None\<close> for every text in which no pattern of the
  cascade matches anywhere, and for the minutes "V. Open Forum / John asked about
  parking. / VI. Discussion Items / ..." it returns the span strictly between the two
  headers, trimmed: "John asked about parking."
\<close>

theorem locator_none_and_sample:
  "((\<forall>p\<in>set open_forum_patterns. re_search flag_is p t = None) \<longrightarrow>
      extract_open_forum_section t = Inr None) \<and>
   extract_open_forum_section sample_minutes = Inr (Some ''John asked about parking.'')"
proof
  show "(\<forall>p\<in>set open_forum_patterns. re_search flag_is p t = None) \<longrightarrow>
      extract_open_forum_section t = Inr None"
    by (simp add: extract_open_forum_section_def first_section_none)
  show "extract_open_forum_section sample_minutes = Inr (Some ''John asked about parking.'')"
    by code_simp
qed

theorem locator_none_and_sample_witness:
  "list_all (\<lambda>p. re_search flag_is p minutes_without_forum = None) open_forum_patterns \<and>
   extract_open_forum_section minutes_without_forum = Inr None"
proof -
  have h: "list_all (\<lambda>p. re_search flag_is p minutes_without_forum = None) open_forum_patterns"
    by code_simp
  then have "\<forall>p\<in>set open_forum_patterns. re_search flag_is p minutes_without_forum = None"
    by (simp only: list_all_iff)
  with locator_none_and_sample [of minutes_without_forum]
  have "extract_open_forum_section minutes_without_forum = Inr None"
    by blast
  with h show ?thesis
    by blast
qed

subsection \<open>The date extractor\<close>

text \<open>
  The texts the extractor promises: \<^verbatim>\<open>^\d{2}\.\d{2}\.\d{4}$\<close>, with a year field that
  reads as a number in 1990..2030.
\<close>

definition two_digits :: "string \<Rightarrow> bool" where
  "two_digits s = (case s of [a, b] \<Rightarrow> is_digit a \<and> is_digit b | _ \<Rightarrow> False)"

definition four_digits :: "string \<Rightarrow> bool" where
  "four_digits s =
     (case s of [a, b, c, d] \<Rightarrow> is_digit a \<and> is_digit b \<and> is_digit c \<and> is_digit d | _ \<Rightarrow> False)"

definition date_text_pattern :: regex where
  "date_text_pattern = seq [Bos, digits 2 2, dot, digits 2 2, dot, digits 4 4, Eol]"

definition is_date_text :: "string \<Rightarrow> bool" where
  "is_date_text s =
     (re_match no_flags date_text_pattern s \<noteq> None \<and>
      1990 \<le> decimal (drop 6 s) \<and> decimal (drop 6 s) \<le> 2030)"

declare str_nat.simps [simp del]

lemma digit_char_digit: "k < 10 \<Longrightarrow> is_digit (digit_char k)"
  by (simp add: is_digit_def digit_char_def)

lemma digit_char_val: "k < 10 \<Longrightarrow> digit_val (digit_char k) = int k"
  by (simp add: digit_val_def digit_char_def)

lemma str_nat_1: "n < 10 \<Longrightarrow> str_nat n = [digit_char n]"
  by (simp add: str_nat.simps [of n])

lemma str_nat_2:
  "10 \<le> n \<Longrightarrow> n < 100 \<Longrightarrow> str_nat n = [digit_char (n div 10), digit_char (n mod 10)]"
  by (simp add: str_nat.simps [of n] str_nat_1)

lemma str_nat_3:
  "100 \<le> n \<Longrightarrow> n < 1000 \<Longrightarrow>
   str_nat n = [digit_char (n div 100), digit_char (n div 10 mod 10), digit_char (n mod 10)]"
proof -
  assume a: "100 \<le> n" "n < 1000"
  have d: "n div 10 div 10 = n div 100"
    by (simp add: div_mult2_eq [symmetric])
  from a have "10 \<le> n div 10" "n div 10 < 100"
    by simp_all
  from str_nat_2 [OF this] a d show ?thesis
    by (simp add: str_nat.simps [of n])
qed

lemma str_nat_4:
  "1000 \<le> n \<Longrightarrow> n < 10000 \<Longrightarrow>
   str_nat n = [digit_char (n div 1000), digit_char (n div 100 mod 10),
                digit_char (n div 10 mod 10), digit_char (n mod 10)]"
proof -
  assume a: "1000 \<le> n" "n < 10000"
  have d: "n div 10 div 100 = n div 1000" "n div 10 div 10 = n div 100"
    by (simp_all add: div_mult2_eq [symmetric])
  from a have "100 \<le> n div 10" "n div 10 < 1000"
    by simp_all
  from str_nat_3 [OF this] a d show ?thesis
    by (simp add: str_nat.simps [of n])
qed

lemma two_digits_format:
  assumes "1 \<le> n" "n \<le> 31"
  shows "two_digits (format_02d n)"
proof (cases "n < 10")
  case True
  with assms have "str_int n = [digit_char (nat n)]" "nat n < 10"
    by (simp_all add: str_int_def str_nat_1)
  with assms show ?thesis
    by (simp add: format_02d_def two_digits_def digit_char_digit is_digit_code)
next
  case False
  with assms have "str_int n = [digit_char (nat n div 10), digit_char (nat n mod 10)]"
    "nat n div 10 < 10"
    by (simp_all add: str_int_def str_nat_2)
  with assms show ?thesis
    by (simp add: format_02d_def two_digits_def digit_char_digit)
qed

lemma four_digits_year:
  assumes "1990 \<le> y" "y \<le> 2030"
  shows "four_digits (str_int y) \<and> decimal (str_int y) = y"
proof -
  let ?n = "nat y"
  from assms have s: "str_int y = [digit_char (?n div 1000), digit_char (?n div 100 mod 10),
                digit_char (?n div 10 mod 10), digit_char (?n mod 10)]"
    by (simp add: str_int_def str_nat_4)
  from assms have "?n div 1000 < 10" by simp
  then have d: "is_digit (digit_char (?n div 1000))" "is_digit (digit_char (?n div 100 mod 10))"
    "is_digit (digit_char (?n div 10 mod 10))" "is_digit (digit_char (?n mod 10))"
    by (simp_all add: digit_char_digit)
  have v: "digit_val (digit_char (?n div 1000)) = int (?n div 1000)"
    "digit_val (digit_char (?n div 100 mod 10)) = int (?n div 100 mod 10)"
    "digit_val (digit_char (?n div 10 mod 10)) = int (?n div 10 mod 10)"
    "digit_val (digit_char (?n mod 10)) = int (?n mod 10)"
    using \<open>?n div 1000 < 10\<close> by (simp_all add: digit_char_val)
  have e1: "?n = 10 * (?n div 10) + ?n mod 10"
    by simp
  have e2: "?n div 10 = 10 * (?n div 100) + ?n div 10 mod 10"
    using mult_div_mod_eq [of 10 "?n div 10"] by (simp add: div_mult2_eq [symmetric])
  have e3: "?n div 100 = 10 * (?n div 1000) + ?n div 100 mod 10"
    using mult_div_mod_eq [of 10 "?n div 100"] by (simp add: div_mult2_eq [symmetric])
  have "1000 * (?n div 1000) + 100 * (?n div 100 mod 10) + 10 * (?n div 10 mod 10) + ?n mod 10 = ?n"
    using e1 e2 e3 by linarith
  then have "int (1000 * (?n div 1000) + 100 * (?n div 100 mod 10) + 10 * (?n div 10 mod 10) + ?n mod 10) = y"
    using assms by simp
  then have "decimal (str_int y) = y"
    unfolding s decimal_def by (simp add: v)
  with d s show ?thesis
    by (simp add: four_digits_def)
qed

lemma date_text_shape:
  assumes "two_digits a" "two_digits b" "four_digits c" "1990 \<le> decimal c" "decimal c \<le> 2030"
  shows "is_date_text (a @ ''.'' @ b @ ''.'' @ c)"
proof -
  from assms(1) obtain a1 a2 where a: "a = [a1, a2]" "is_digit a1" "is_digit a2"
    by (auto simp: two_digits_def split: list.splits)
  from assms(2) obtain b1 b2 where b: "b = [b1, b2]" "is_digit b1" "is_digit b2"
    by (auto simp: two_digits_def split: list.splits)
  from assms(3) obtain c1 c2 c3 c4 where c: "c = [c1, c2, c3, c4]" "is_digit c1" "is_digit c2"
    "is_digit c3" "is_digit c4"
    by (auto simp: four_digits_def split: list.splits)
  have "re_match no_flags date_text_pattern (a @ ''.'' @ b @ ''.'' @ c) \<noteq> None"
    using a b c
    by (simp add: re_match_def match_here_def date_text_pattern_def digits_def dot_def
        no_flags_def)
  moreover have "drop 6 (a @ ''.'' @ b @ ''.'' @ c) = c"
    using a b by simp
  ultimately show ?thesis
    using assms(4,5) by (simp add: is_date_text_def)
qed

lemma format_date_text:
  assumes "1 \<le> m" "m \<le> 31" "1 \<le> d" "d \<le> 31" "1990 \<le> y" "y \<le> 2030"
  shows "is_date_text (format_date m d y)"
  unfolding format_date_def
  using assms four_digits_year [of y]
  by (intro date_text_shape two_digits_format) auto

lemma sbind_Inr: "sbind m k = Inr r \<Longrightarrow> \<exists>x. m = Inr x \<and> k x = Inr r"
  by (cases m) (auto simp: sbind_def)

lemma sbind_Inl: "sbind m k = Inl e \<Longrightarrow> m = Inl e \<or> (\<exists>x. m = Inr x \<and> k x = Inl e)"
  by (cases m) (auto simp: sbind_def)

lemma py_int_Some_Inl: "py_int (Some s) = Inl e \<Longrightarrow> caught e"
  by (auto simp: py_int_def caught_def split: if_splits)

lemma py_len_Some: "py_len (Some s) = Inr (length s)"
  by (simp add: py_len_def)

lemma check_day_year_text: "check_day_year y m d = Some s \<Longrightarrow> is_date_text s"
proof -
  assume a: "check_day_year y m d = Some s"
  then have r: "1 \<le> d" "d \<le> 31" "1990 \<le> y" "y \<le> 2030" "valid_date y m d"
    and s: "s = format_date m d y"
    by (auto simp: check_day_year_def split: if_splits)
  from r(5) have "1 \<le> m" "m \<le> 31"
    by (auto simp: valid_date_def)
  with r s show ?thesis
    by (simp add: format_date_text)
qed

lemma validate_text: "validate y m d = Some s \<Longrightarrow> is_date_text s"
  by (auto simp: validate_def split: if_splits dest: check_day_year_text)

lemma try_candidate_text: "try_candidate c = Inr (Some s) \<Longrightarrow> is_date_text s"
proof -
  assume a: "try_candidate c = Inr (Some s)"
  obtain g1 g2 g3 where c: "c = (g1, g2, g3)" by (cases c) auto
  from a c obtain y m d where "validate y m d = Some s"
    unfolding try_candidate_def
    by (auto dest!: sbind_Inr split: if_splits)
  then show ?thesis by (rule validate_text)
qed

lemma try_candidate_caught:
  "try_candidate (Some a, Some b, Some c) = Inl e \<Longrightarrow> caught e"
  unfolding try_candidate_def
  by ((auto simp: py_len_Some dest!: sbind_Inl split: if_splits); erule py_int_Some_Inl)

definition all_groups :: "candidate \<Rightarrow> bool" where
  "all_groups c = (case c of (g1, g2, g3) \<Rightarrow> g1 \<noteq> None \<and> g2 \<noteq> None \<and> g3 \<noteq> None)"

lemma first_valid_total:
  "list_all all_groups cs \<Longrightarrow>
   \<exists>r. first_valid cs = Inr r \<and> (case r of None \<Rightarrow> True | Some s \<Rightarrow> is_date_text s)"
proof (induction cs)
  case Nil
  then show ?case by simp
next
  case (Cons c cs)
  then obtain a b d where c: "c = (Some a, Some b, Some d)"
    by (cases c) (auto simp: all_groups_def)
  from Cons obtain r where r: "first_valid cs = Inr r"
    "case r of None \<Rightarrow> True | Some s \<Rightarrow> is_date_text s"
    by auto
  show ?case
  proof (cases "try_candidate c")
    case (Inl e)
    with c have "caught e" by (auto dest: try_candidate_caught)
    with Inl r show ?thesis by simp
  next
    case (Inr x)
    show ?thesis
    proof (cases x)
      case None
      with Inr r show ?thesis by simp
    next
      case (Some s)
      with Inr have "is_date_text s" by (auto dest: try_candidate_text)
      with Inr Some show ?thesis by simp
    qed
  qed
qed

lemma date_patterns_sure: "list_all (\<lambda>pat. {1, 2, 3} \<subseteq> sure pat) date_patterns"
  by (simp add: date_patterns_def digits_def sep_def ws_def zero_or_more_def one_or_more_def)

lemma finditer_groups:
  assumes "{1, 2, 3} \<subseteq> sure pat"
  shows "list_all all_groups (map (groups3 t) (re_finditer f pat t))"
proof -
  have "all_groups (groups3 t m)" if "m \<in> set (re_finditer f pat t)" for m
  proof -
    from that have "sure pat \<subseteq> fst ` set (m_caps m)"
      by (auto simp: re_finditer_def dest: finditer_from_caps)
    with assms have "1 \<in> fst ` set (m_caps m)" "2 \<in> fst ` set (m_caps m)"
      "3 \<in> fst ` set (m_caps m)"
      by auto
    then show ?thesis
      using group_sure [of 1 m t] group_sure [of 2 m t] group_sure [of 3 m t]
      by (auto simp: all_groups_def groups3_def)
  qed
  then show ?thesis by (simp add: list_all_iff)
qed

lemma candidates_groups: "list_all all_groups (candidates t)"
proof -
  have "list_all all_groups (concat (map (\<lambda>pat. map (groups3 t) (re_finditer no_flags pat t)) ps))"
    if "list_all (\<lambda>pat. {1, 2, 3} \<subseteq> sure pat) ps" for ps
    using that by (induction ps) (simp_all add: finditer_groups)
  from this [OF date_patterns_sure] show ?thesis
    by (simp add: candidates_def)
qed

lemma try_month_result:
  assumes "2 \<in> fst ` set (m_caps m)" "3 \<in> fst ` set (m_caps m)" "1 \<le> month" "month \<le> 12"
  shows "(\<exists>e. try_month t m month = Inl e \<and> caught e) \<or> try_month t m month = Inr None \<or>
         (\<exists>s. try_month t m month = Inr (Some s) \<and> is_date_text s)"
proof -
  from assms obtain a b where g: "match_group t m 2 = Some a" "match_group t m 3 = Some b"
    using group_sure [of 2 m t] group_sure [of 3 m t] by auto
  show ?thesis
  proof (cases "py_int (Some a)")
    case (Inl e)
    then show ?thesis
      using g py_int_Some_Inl [OF Inl] by (simp add: try_month_def sbind_def)
  next
    case d: (Inr day)
    show ?thesis
    proof (cases "py_int (Some b)")
      case (Inl e)
      then show ?thesis
        using g d py_int_Some_Inl [OF Inl] by (simp add: try_month_def sbind_def Let_def)
    next
      case y: (Inr year0)
      show ?thesis
        using g d y assms(3,4)
        by (simp add: try_month_def sbind_def Let_def py_len_Some format_date_text)
    qed
  qed
qed

definition good_month :: "regex \<times> int \<Rightarrow> bool" where
  "good_month pm = (case pm of (pat, month) \<Rightarrow> {2, 3} \<subseteq> sure pat \<and> 1 \<le> month \<and> month \<le> 12)"

lemma first_month_total:
  "list_all good_month ps \<Longrightarrow>
   \<exists>r. first_month ps t = Inr r \<and> (case r of None \<Rightarrow> True | Some s \<Rightarrow> is_date_text s)"
proof (induction ps)
  case Nil
  then show ?case by simp
next
  case (Cons pm ps)
  obtain pat month where pm: "pm = (pat, month)" by (cases pm) auto
  from Cons pm have gm: "{2, 3} \<subseteq> sure pat" "1 \<le> month" "month \<le> 12"
    by (auto simp: good_month_def)
  from Cons obtain r where r: "first_month ps t = Inr r"
    "case r of None \<Rightarrow> True | Some s \<Rightarrow> is_date_text s"
    by auto
  show ?case
  proof (cases "re_search no_flags pat t")
    case None
    with pm r show ?thesis by simp
  next
    case (Some m)
    from re_search_caps [OF Some] gm(1) have
      "2 \<in> fst ` set (m_caps m)" "3 \<in> fst ` set (m_caps m)"
      by auto
    from try_month_result [OF this gm(2,3), of t] pm Some r show ?thesis
      by auto
  qed
qed

lemma month_patterns_good: "list_all good_month month_patterns"
  by (simp add: month_patterns_def month_pattern_def good_month_def digits_def)

lemma extract_date_ok:
  "\<exists>s. extract_date_from_filename filename = Inr s \<and> (s = ''Unknown Date'' \<or> is_date_text s)"
proof -
  from first_valid_total [OF candidates_groups, of filename] obtain r where
    r: "first_valid (candidates filename) = Inr r"
    "case r of None \<Rightarrow> True | Some s \<Rightarrow> is_date_text s"
    by auto
  from first_month_total [OF month_patterns_good, of "lower filename"] obtain r' where
    r': "first_month month_patterns (lower filename) = Inr r'"
    "case r' of None \<Rightarrow> True | Some s \<Rightarrow> is_date_text s"
    by auto
  from r r' show ?thesis
    by (cases r; cases r') (simp_all add: extract_date_from_filename_def)
qed


text \<open>
  C5. The four file names of the specification: "Minutes 1.2.21 draft.pdf" gives
  "01.02.2021"; "minutes_03152023.pdf" gives "03.15.2023", its first candidate being the
  eight-digit run read as MMDDYYYY; "March 5 2020 notes.pdf" gives "03.05.2020" through
  the month names, no numeric candidate existing; "no_date_here.pdf" gives
  "Unknown Date".
\<close>

theorem extract_date_vectors:
  "extract_date_from_filename ''Minutes 1.2.21 draft.pdf'' = Inr ''01.02.2021'' \<and>
   extract_date_from_filename ''minutes_03152023.pdf'' = Inr ''03.15.2023'' \<and>
   take 1 (candidates ''minutes_03152023.pdf'') = [(Some ''03'', Some ''15'', Some ''2023'')] \<and>
   extract_date_from_filename ''March 5 2020 notes.pdf'' = Inr ''03.05.2020'' \<and>
   candidates ''March 5 2020 notes.pdf'' = [] \<and>
   extract_date_from_filename ''no_date_here.pdf'' = Inr ''Unknown Date''"
proof (intro conjI)
  show "extract_date_from_filename ''Minutes 1.2.21 draft.pdf'' = Inr ''01.02.2021''"
    by code_simp
  show "extract_date_from_filename ''minutes_03152023.pdf'' = Inr ''03.15.2023''"
    by code_simp
  show "take 1 (candidates ''minutes_03152023.pdf'') = [(Some ''03'', Some ''15'', Some ''2023'')]"
    by code_simp
  show "extract_date_from_filename ''March 5 2020 notes.pdf'' = Inr ''03.05.2020''"
    by code_simp
  show "candidates ''March 5 2020 notes.pdf'' = []"
    by code_simp
  show "extract_date_from_filename ''no_date_here.pdf'' = Inr ''Unknown Date''"
    by code_simp
qed

section \<open>Properties of the aggregator\<close>

text \<open>The skip log of a whole run that starts from a fresh agent.\<close>

definition run_skips :: "node option \<Rightarrow> (string \<times> string) list option" where
  "run_skips root =
     (case process_folder init_agent root of
        Inl e \<Rightarrow> None
      | Inr (a, yearly_results) \<Rightarrow> Some (skipped_files a))"

definition three_pdfs :: "node list" where
  "three_pdfs =
     [File ''a 1.2.23.pdf'' [],
      File ''b 2.3.23.pdf'' (''I. Call to order'' @ [nl] @ ''II. Roll call''),
      File ''c 3.4.23.pdf'' (''V. Open Forum'' @ [nl] @ ''None.'' @ [nl] @ ''VI. Adjournment'')]"

definition yearly_root :: node where
  "yearly_root = Dir ''minutes'' [Dir ''2022-2023'' [Dir ''Minutes'' three_pdfs]]"

definition flat_root :: node where
  "flat_root = Dir ''minutes'' three_pdfs"

text \<open>
  C7. On the yearly-folders path no skip entry is recorded: a year folder holding a file
  whose text is empty, a file without an Open Forum section and a file whose count is 0
  leaves \<open>skipped_files\<close> empty, while the same three files in a flat folder, which
  go through \<open>process_single_pdf\<close>, are recorded with their three reasons. Neither
  run is aborted.
\<close>

theorem yearly_path_records_no_skip_entry:
  "run_skips (Some yearly_root) = Some [] \<and>
   run_skips (Some flat_root) =
     Some [(''a 1.2.23.pdf'', ''Failed to extract text''),
           (''b 2.3.23.pdf'', ''No Open Forum section found''),
           (''c 3.4.23.pdf'', ''No comments or 'no comment' marker found'')]"
proof
  show "run_skips (Some yearly_root) = Some []"
    by code_simp
  show "run_skips (Some flat_root) =
     Some [(''a 1.2.23.pdf'', ''Failed to extract text''),
           (''b 2.3.23.pdf'', ''No Open Forum section found''),
           (''c 3.4.23.pdf'', ''No comments or 'no comment' marker found'')]"
    by code_simp
qed

lemma process_single_pdf_ok:
  "\<exists>a' date cc. process_single_pdf a f = Inr (a', date, cc) \<and> stats a' = stats a \<and>
     (case cc of None \<Rightarrow> True | Some n \<Rightarrow> 0 < n)"
proof -
  obtain filename content where f: "f = (filename, content)" by (cases f) auto
  obtain date where d: "extract_date_from_filename filename = Inr date"
    using extract_date_ok [of filename] by auto
  obtain r where r: "extract_open_forum_section content = Inr r"
    using extract_open_forum_section_total [of content] by auto
  show ?thesis
    using f d r by (simp add: process_single_pdf_def sbind_def skip_def Let_def)
qed

lemma year_loop_stats:
  "\<exists>a' m. year_loop a cm fs = Inr (a', m) \<and>
     total_files (stats a') = total_files (stats a) \<and>
     processed_files (stats a') + skipped_count (stats a') =
       processed_files (stats a) + skipped_count (stats a) + length fs \<and>
     (processed_files (stats a) \<le> total_comments (stats a) \<longrightarrow>
        processed_files (stats a') \<le> total_comments (stats a'))"
proof (induction fs arbitrary: a cm)
  case Nil
  then show ?case by simp
next
  case (Cons f fs)
  obtain a1 date cc where p: "process_single_pdf a f = Inr (a1, date, cc)"
    "stats a1 = stats a" "case cc of None \<Rightarrow> True | Some n \<Rightarrow> 0 < n"
    using process_single_pdf_ok [of a f] by auto
  show ?case
  proof (cases cc)
    case None
    let ?a = "a1\<lparr>stats := (stats a1)\<lparr>skipped_count := skipped_count (stats a1) + 1\<rparr>\<rparr>"
    from Cons.IH [of ?a cm] p None show ?thesis
      by (auto simp: sbind_def)
  next
    case (Some n)
    let ?a = "a1\<lparr>stats := (stats a1)\<lparr>processed_files := processed_files (stats a1) + 1,
                                       total_comments := total_comments (stats a1) + n\<rparr>\<rparr>"
    from Cons.IH [of ?a "dict_set cm date n"] p Some show ?thesis
      by (auto simp: sbind_def)
  qed
qed

definition folder_without_pdf :: node where
  "folder_without_pdf = Dir ''minutes'' [File ''readme.txt'' ''Minutes are kept elsewhere.'']"

text \<open>
  C10, as stated, fails on a flat folder that holds no PDF file: all counters are 0 at
  the end of the run, so \<open>total_files\<close> equals the sum of the processed and the skipped
  files.
\<close>

theorem flat_folder_without_pdf_counts_agree:
  "(case process_folder init_agent (Some folder_without_pdf) of
      Inl e \<Rightarrow> False
    | Inr (a, yearly_results) \<Rightarrow>
        yearly_results = [(''All Files'', [])] \<and>
        total_files (stats a) = 0 \<and>
        total_files (stats a) = processed_files (stats a) + skipped_count (stats a))"
  by code_simp

text \<open>
  C10, amended. In the flat-collection fallback (no academic-year folder, bucket
  "All Files") the counter \<open>total_files\<close> is still 0 at the end of the run, while every
  PDF file is counted in \<open>processed_files\<close> or in the skipped counter and every processed
  file adds its comments to \<open>total_comments\<close>; so \<open>total_files\<close> differs from the sum of
  the processed and the skipped files whenever the folder holds at least one PDF file.
\<close>

theorem flat_mode_total_files:
  assumes "yearly_folders items = []"
  shows "\<exists>a' m. process_folder init_agent (Some (Dir n items)) = Inr (a', [(''All Files'', m)]) \<and>
     total_files (stats a') = 0 \<and>
     processed_files (stats a') + skipped_count (stats a') = length (walk_pdfs (Dir n items)) \<and>
     processed_files (stats a') \<le> total_comments (stats a') \<and>
     (walk_pdfs (Dir n items) \<noteq> [] \<longrightarrow>
        total_files (stats a') \<noteq> processed_files (stats a') + skipped_count (stats a'))"
proof -
  let ?a0 = "init_agent\<lparr>meeting_stats := []\<rparr>"
  obtain a' m where l: "year_loop ?a0 [] (walk_pdfs (Dir n items)) = Inr (a', m)"
    "total_files (stats a') = total_files (stats ?a0)"
    "processed_files (stats a') + skipped_count (stats a') =
       processed_files (stats ?a0) + skipped_count (stats ?a0) + length (walk_pdfs (Dir n items))"
    "processed_files (stats ?a0) \<le> total_comments (stats ?a0) \<longrightarrow>
        processed_files (stats a') \<le> total_comments (stats a')"
    using year_loop_stats [of ?a0 "[]" "walk_pdfs (Dir n items)"] by blast
  have p: "process_folder init_agent (Some (Dir n items)) = Inr (a', [(''All Files'', m)])"
    using assms l(1)
    by (simp add: process_folder_def Let_def process_single_year_folder_def sbind_def
        del: walk_pdfs.simps)
  from l(2,3,4) have s: "total_files (stats a') = 0"
    "processed_files (stats a') + skipped_count (stats a') = length (walk_pdfs (Dir n items))"
    "processed_files (stats a') \<le> total_comments (stats a')"
    by (simp_all add: init_agent_def)
  from p s show ?thesis
    by (auto simp del: walk_pdfs.simps)
qed

theorem flat_mode_total_files_witness:
  "yearly_folders three_pdfs = [] \<and>
   walk_pdfs (Dir ''minutes'' three_pdfs) \<noteq> [] \<and>
   (\<exists>a' m. process_folder init_agent (Some (Dir ''minutes'' three_pdfs)) =
              Inr (a', [(''All Files'', m)]) \<and>
      total_files (stats a') = 0 \<and>
      processed_files (stats a') + skipped_count (stats a') = 3 \<and>
      total_files (stats a') \<noteq> processed_files (stats a') + skipped_count (stats a'))"
proof -
  have h: "yearly_folders three_pdfs = []"
    by code_simp
  have w: "walk_pdfs (Dir ''minutes'' three_pdfs) \<noteq> []"
    by code_simp
  have l: "length (walk_pdfs (Dir ''minutes'' three_pdfs)) = 3"
    by code_simp
  from flat_mode_total_files [OF h, of "''minutes''"] w l h show ?thesis
    by (auto simp del: walk_pdfs.simps)
qed

section \<open>Properties of the CSV export\<close>

text \<open>
  The triples of a mapping, a text read back as triples (the header row dropped), and
  the cells of a data row.
\<close>

definition triples :: "(string \<times> (string \<times> nat) list) list \<Rightarrow> (string \<times> string \<times> nat) set" where
  "triples yearly_data =
     {(year, date, count). \<exists>year_data. map_of yearly_data year = Some year_data \<and>
                              (date, count) \<in> set year_data}"

definition reparse :: "string \<Rightarrow> (string \<times> string \<times> int) option list" where
  "reparse t = map to_triple (tl (read_csv t))"

definition data_row :: "string \<times> string \<times> nat \<Rightarrow> string list" where
  "data_row r = (case r of (year, date, count) \<Rightarrow> [year, date, str_nat count])"

text \<open>
  A year-to-date-to-count mapping is a dictionary of dictionaries: no year occurs twice,
  and no date occurs twice within a year.
\<close>

definition is_dict :: "(string \<times> (string \<times> nat) list) list \<Rightarrow> bool" where
  "is_dict yearly_data =
     (distinct (map fst yearly_data) \<and>
      list_all (\<lambda>(year, year_data). distinct (map fst year_data)) yearly_data)"

text \<open>
  The order "by year, then by date string" on rows: the year is smaller, or the years
  are equal and the date is smaller. Strings are compared as Python compares them,
  character by character on the code points.
\<close>

definition year_then_date :: "string \<times> string \<times> nat \<Rightarrow> string \<times> string \<times> nat \<Rightarrow> bool" where
  "year_then_date r1 r2 =
     (case (r1, r2) of
        ((year1, date1, count1), (year2, date2, count2)) \<Rightarrow>
          year1 < year2 \<or> (year1 = year2 \<and> date1 < date2))"

text \<open>
  The mapping that a run from a fresh agent returns, and a folder with two academic
  years; the name of the first one holds a comma and double quotes.
\<close>

definition run_yearly :: "node option \<Rightarrow> yearly option" where
  "run_yearly root =
     (case process_folder init_agent root of
        Inl e \<Rightarrow> None
      | Inr (a, yearly_results) \<Rightarrow> Some yearly_results)"

definition forum_minutes :: "string \<Rightarrow> string" where
  "forum_minutes body = ''V. Open Forum'' @ [nl] @ body @ [nl] @ ''VI. Adjournment''"

definition old_year :: string where
  "old_year = ''2021-2022, '' @ [dq] @ ''old'' @ [dq]"

definition two_years_root :: node where
  "two_years_root =
     Dir ''minutes''
       [Dir ''2022-2023''
          [Dir ''Minute''
             [File ''Minutes 3.4.23.pdf''
                (forum_minutes (''Alice said that the parking lots were closed.'' @ [nl, nl] @
                                ''Bob asked about the library hours.''))]],
        Dir old_year
          [Dir ''Minutes''
             [File ''Minutes 10.5.21.pdf'' (forum_minutes ''Carol asked about the budget for next year.''),
              File ''Minutes 1.2.22.pdf'' (forum_minutes ''Dan asked about the campus shuttle.'')]]]"

definition two_years_data :: yearly where
  "two_years_data =
     [(old_year, [(''10.05.2021'', 1), (''01.02.2022'', 1)]),
      (''2022-2023'', [(''03.04.2023'', 2)])]"

subsection \<open>The reader undoes the writer\<close>

lemma plain_chars:
  "\<forall>c\<in>set s. \<not> special c \<Longrightarrow>
   foldl step (InField, fld, cells, records) s = (InField, fld @ s, cells, records)"
  by (induction s arbitrary: fld) (auto simp: step_def special_def add_char_def)

lemma step_in_quoted:
  "step (InQuotedField, fld, cells, records) c =
     (if c = dq then (QuoteInQuotedField, fld, cells, records)
      else (InQuotedField, fld @ [c], cells, records))"
  by (simp add: step_def add_char_def)

lemma step_quote_quote:
  "step (QuoteInQuotedField, fld, cells, records) dq = (InQuotedField, fld @ [dq], cells, records)"
  by (simp add: step_def add_char_def)

lemma escaped_body:
  "foldl step (InQuotedField, fld, cells, records) (escape_quotes s) =
     (InQuotedField, fld @ s, cells, records)"
  by (induction s arbitrary: fld) (simp_all add: step_in_quoted step_quote_quote)

lemma escaped_chars:
  "foldl step (InQuotedField, fld, cells, records) (escape_quotes s @ [dq]) =
     (QuoteInQuotedField, fld @ s, cells, records)"
  by (simp add: escaped_body step_in_quoted)

lemma special_code: "special c \<longleftrightarrow> c = comma \<or> c = dq \<or> c = cr \<or> c = nl"
  by (simp add: special_def)

lemma field_read:
  "foldl step (StartField, [], cells, records) (csv_field s @ t) =
     foldl step (if s = [] then StartField else if list_ex special s then QuoteInQuotedField else InField,
                 s, cells, records) t"
proof (cases "list_ex special s")
  case True
  then have "s \<noteq> []" by auto
  with True show ?thesis
    using escaped_chars [of "[]" cells records s]
    by (simp add: csv_field_def step_def start_field_def dq_def cr_def nl_def)
next
  case False
  show ?thesis
  proof (cases s)
    case Nil
    then show ?thesis by (simp add: csv_field_def)
  next
    case (Cons c cs)
    with False have n: "\<not> special c" "\<forall>x\<in>set cs. \<not> special x"
      by (auto simp: list_ex_iff)
    from n(1) have "step (StartField, [], cells, records) c = (InField, [c], cells, records)"
      by (auto simp: step_def start_field_def special_def add_char_def)
    with False Cons plain_chars [OF n(2), of "[c]" cells records] show ?thesis
      by (simp add: csv_field_def)
  qed
qed

lemma after_field_comma:
  "step (if s = [] then StartField else if list_ex special s then QuoteInQuotedField else InField,
         s, cells, records) comma = (StartField, [], cells @ [s], records)"
  by (simp add: step_def start_field_def save_field_def comma_def dq_def cr_def nl_def)

lemma after_field_crlf:
  "foldl step (if s = [] then StartField else if list_ex special s then QuoteInQuotedField else InField,
         s, cells, records) [cr, nl] = (StartRecord, [], [], records @ [cells @ [s]])"
  by (simp add: step_def start_field_def save_field_def end_record_def comma_def dq_def cr_def nl_def)

lemma csv_field_first:
  "csv_field a @ comma # t = c # u \<Longrightarrow> c \<noteq> nl \<and> c \<noteq> cr"
  by (cases a) (auto simp: csv_field_def special_def comma_def dq_def cr_def nl_def list_ex_iff split: if_splits)

lemma start_record_as_field:
  "c \<noteq> nl \<Longrightarrow> c \<noteq> cr \<Longrightarrow> step (StartRecord, x) c = step (StartField, x) c"
  by (cases x) (simp add: step_def start_record_def start_field_def save_field_def add_char_def
      end_record_def)

lemma row_read:
  "foldl step (StartRecord, [], [], records) (writerow [a, b, c] @ t) =
     foldl step (StartRecord, [], [], records @ [[a, b, c]]) t"
proof -
  let ?rest = "csv_field b @ comma # csv_field c @ cr # nl # t"
  obtain x u where xu: "csv_field a @ comma # ?rest = x # u"
    by (cases "csv_field a") auto
  from csv_field_first [OF this] have "x \<noteq> nl" "x \<noteq> cr" by auto
  then have "foldl step (StartRecord, [], [], records) (x # u) =
      foldl step (StartField, [], [], records) (x # u)"
    by (simp add: start_record_as_field)
  then have 1: "foldl step (StartRecord, [], [], records) (csv_field a @ comma # ?rest) =
      foldl step (StartField, [], [], records) (csv_field a @ comma # ?rest)"
    by (simp only: xu)
  have 2: "foldl step (StartField, [], [], records) (csv_field a @ comma # ?rest) =
      foldl step (StartField, [], [a], records) ?rest"
    by (simp only: field_read foldl_Cons after_field_comma append_Nil)
  have 3: "foldl step (StartField, [], [a], records) ?rest =
      foldl step (StartField, [], [a, b], records) (csv_field c @ cr # nl # t)"
    by (simp only: field_read foldl_Cons after_field_comma append_Nil append_Cons)
  have "foldl step (StartField, [], [a, b], records) (csv_field c @ ([cr, nl] @ t)) =
      foldl step (if c = [] then StartField else if list_ex special c then QuoteInQuotedField
                  else InField, c, [a, b], records) ([cr, nl] @ t)"
    by (rule field_read)
  also have "\<dots> = foldl step (StartRecord, [], [], records @ [[a, b] @ [c]]) t"
    by (simp only: foldl_append after_field_crlf)
  finally have 4: "foldl step (StartField, [], [a, b], records) (csv_field c @ [cr, nl] @ t) =
      foldl step (StartRecord, [], [], records @ [[a, b, c]]) t"
    by simp
  have w: "writerow [a, b, c] @ t = csv_field a @ comma # ?rest"
    by (simp add: writerow_def)
  from 1 2 3 4 show ?thesis
    by (simp add: w)
qed


lemma rows_read:
  "foldl step (StartRecord, [], [], records) (concat (map (\<lambda>r. writerow (data_row r)) rows) @ t) =
     foldl step (StartRecord, [], [], records @ map data_row rows) t"
proof (induction rows arbitrary: records)
  case Nil
  then show ?case by simp
next
  case (Cons r rows)
  obtain y d c where r: "r = (y, d, c)" by (cases r) auto
  have "foldl step (StartRecord, [], [], records)
          (writerow [y, d, str_nat c] @ (concat (map (\<lambda>r. writerow (data_row r)) rows) @ t)) =
        foldl step (StartRecord, [], [], records @ [[y, d, str_nat c]])
          (concat (map (\<lambda>r. writerow (data_row r)) rows) @ t)"
    by (rule row_read)
  with Cons.IH [of "records @ [[y, d, str_nat c]]"] r show ?case
    by (simp add: data_row_def)
qed

lemma read_export:
  "read_csv (export_to_csv yearly_data) = csv_header # map data_row (export_rows yearly_data)"
proof -
  have e: "export_to_csv yearly_data =
      writerow [''Academic_Year'', ''Date'', ''Comment_Count''] @
      (concat (map (\<lambda>r. writerow (data_row r)) (export_rows yearly_data)) @ [])"
    by (simp add: export_to_csv_def csv_header_def data_row_def case_prod_unfold)
  show ?thesis
    unfolding read_csv_def e
    by (simp only: row_read rows_read) (simp add: finish_def csv_header_def)
qed

lemma decimal_snoc: "decimal (xs @ [c]) = 10 * decimal xs + digit_val c"
  by (simp add: decimal_def)

lemma str_nat_digits: "str_nat n \<noteq> [] \<and> list_all is_digit (str_nat n) \<and> decimal (str_nat n) = int n"
proof (induction n rule: str_nat.induct)
  case (1 n)
  show ?case
  proof (cases "n < 10")
    case True
    then show ?thesis
      by (simp add: str_nat_1 digit_char_digit digit_char_val decimal_def)
  next
    case False
    then have s: "str_nat n = str_nat (n div 10) @ [digit_char (n mod 10)]"
      by (simp add: str_nat.simps [of n])
    have m: "n mod 10 < 10" by simp
    have e: "10 * int (n div 10) + int (n mod 10) = int n"
      by (simp add: zdiv_int zmod_int)
    from "1.IH" [OF False] m e show ?thesis
      unfolding s by (simp add: decimal_snoc digit_char_digit digit_char_val)
  qed
qed

lemma to_triple_row: "to_triple (data_row (y, d, c)) = Some (y, d, int c)"
  using str_nat_digits [of c] by (simp add: to_triple_def data_row_def py_int_def)

lemma reparse_export:
  "reparse (export_to_csv yearly_data) =
     map (\<lambda>(y, d, c). Some (y, d, int c)) (export_rows yearly_data)"
  by (simp add: reparse_def read_export to_triple_row case_prod_unfold
      flip: data_row_def) (simp add: to_triple_row [symmetric] del: to_triple_row)

lemma set_export_rows: "set (export_rows yearly_data) = triples yearly_data"
proof -
  have "map_of yearly_data y \<noteq> None" if "y \<in> fst ` set yearly_data" for y
    using that by (simp add: map_of_eq_None_iff)
  moreover have "y \<in> fst ` set yearly_data" if "map_of yearly_data y = Some m" for y m
    using map_of_SomeD [OF that] by force
  ultimately show ?thesis
    unfolding export_rows_def triples_def
    by (auto split: option.splits) force+
qed

lemma sorted_blocks:
  "sorted ks \<Longrightarrow> (\<And>k r. r \<in> set (f k) \<Longrightarrow> fst r = k) \<Longrightarrow>
   sorted (map fst (concat (map f ks)))"
proof (induction ks)
  case Nil
  then show ?case by simp
next
  case (Cons k ks)
  have "\<forall>x\<in>set (map fst (f k)). \<forall>y\<in>set (map fst (concat (map f ks))). x \<le> y"
    using Cons.prems by fastforce
  moreover have "sorted (map fst (f k))"
  proof -
    have "map fst (f k) = replicate (length (f k)) k"
      using Cons.prems(2) by (simp add: map_replicate_const [symmetric] cong: map_cong)
    then show ?thesis by (simp add: sorted_replicate)
  qed
  moreover have "sorted (map fst (concat (map f ks)))"
    using Cons by simp
  ultimately show ?case
    by (simp add: sorted_append)
qed

lemma export_rows_sorted: "sorted (map fst (export_rows yearly_data))"
  unfolding export_rows_def
  by (rule sorted_blocks) (auto split: option.splits)

subsection \<open>The order of the rows\<close>

lemma blocks_sorted_wrt:
  "sorted_wrt (<) ks \<Longrightarrow> (\<And>k. sorted_wrt P (f k)) \<Longrightarrow>
   (\<And>k k' x y. k < k' \<Longrightarrow> x \<in> set (f k) \<Longrightarrow> y \<in> set (f k') \<Longrightarrow> P x y) \<Longrightarrow>
   sorted_wrt P (concat (map f ks))"
proof (induction ks)
  case Nil
  then show ?case by simp
next
  case (Cons k ks)
  have "sorted_wrt P (concat (map f ks))"
    using Cons by simp
  moreover have "\<forall>x\<in>set (f k). \<forall>y\<in>set (concat (map f ks)). P x y"
    using Cons.prems(1,3) by auto
  ultimately show ?case
    using Cons.prems(2) by (simp add: sorted_wrt_append)
qed

lemma year_block_sorted:
  assumes "distinct (map fst year_data)"
  shows "sorted_wrt year_then_date (map (\<lambda>(date, count). (year, date, count)) (sort_key fst year_data))"
proof -
  have "sorted (map fst (sort_key fst year_data))"
    by (rule sorted_sort_key)
  moreover have "distinct (map fst (sort_key fst year_data))"
    using assms by (simp add: distinct_map)
  ultimately have "sorted_wrt (<) (map fst (sort_key fst year_data))"
    by (simp add: strict_sorted_iff)
  then show ?thesis
    by (simp add: sorted_wrt_map year_then_date_def case_prod_unfold)
qed

lemma export_rows_ordered:
  assumes "is_dict yearly_data"
  shows "sorted_wrt year_then_date (export_rows yearly_data)"
  unfolding export_rows_def
proof (rule blocks_sorted_wrt)
  show "sorted_wrt (<) (sort (map fst yearly_data))"
    using assms by (simp add: strict_sorted_iff is_dict_def)
next
  fix k
  show "sorted_wrt year_then_date
          (case map_of yearly_data k of
             None \<Rightarrow> []
           | Some year_data \<Rightarrow> map (\<lambda>(date, count). (k, date, count)) (sort_key fst year_data))"
  proof (cases "map_of yearly_data k")
    case None
    then show ?thesis by simp
  next
    case (Some m)
    then have "(k, m) \<in> set yearly_data"
      by (rule map_of_SomeD)
    then have "distinct (map fst m)"
      using assms by (auto simp: is_dict_def list_all_iff)
    then have "sorted_wrt year_then_date (map (\<lambda>(date, count). (k, date, count)) (sort_key fst m))"
      by (rule year_block_sorted)
    then show ?thesis
      using Some by simp
  qed
next
  fix k k' :: string and x y :: "string \<times> string \<times> nat"
  assume "k < k'"
    and "x \<in> set (case map_of yearly_data k of
             None \<Rightarrow> []
           | Some year_data \<Rightarrow> map (\<lambda>(date, count). (k, date, count)) (sort_key fst year_data))"
    and "y \<in> set (case map_of yearly_data k' of
             None \<Rightarrow> []
           | Some year_data \<Rightarrow> map (\<lambda>(date, count). (k', date, count)) (sort_key fst year_data))"
  then show "year_then_date x y"
    by (auto simp: year_then_date_def split: option.splits)
qed

lemma ordered_distinct: "sorted_wrt year_then_date rows \<Longrightarrow> distinct rows"
proof (induction rows)
  case Nil
  then show ?case by simp
next
  case (Cons r rows)
  have "\<not> year_then_date r r"
    by (simp add: year_then_date_def case_prod_unfold)
  with Cons show ?case
    by auto
qed

lemma export_rows_count:
  assumes "is_dict yearly_data"
  shows "length (export_rows yearly_data) = card (triples yearly_data)"
proof -
  have "distinct (export_rows yearly_data)"
    using assms by (intro ordered_distinct export_rows_ordered)
  then show ?thesis
    by (simp add: distinct_card set_export_rows [symmetric])
qed

lemma header_text:
  "take 34 (export_to_csv yearly_data) = ''Academic_Year,Date,Comment_Count'' @ [cr, nl]"
proof -
  have "writerow csv_header = ''Academic_Year,Date,Comment_Count'' @ [cr, nl]"
    by code_simp
  then show ?thesis
    by (simp add: export_to_csv_def)
qed

subsection \<open>The aggregator emits dictionaries\<close>

lemma dict_set_keys: "fst ` set (dict_set d k v) = insert k (fst ` set d)"
proof (induction d)
  case Nil
  then show ?case by simp
next
  case (Cons p d)
  obtain k' v' where p: "p = (k', v')" by (cases p) auto
  show ?case
  proof (cases "k' = k")
    case True
    then show ?thesis unfolding p by simp
  next
    case False
    then show ?thesis unfolding p using Cons.IH by (simp add: insert_commute)
  qed
qed

lemma dict_set_distinct: "distinct (map fst d) \<Longrightarrow> distinct (map fst (dict_set d k v))"
proof (induction d)
  case Nil
  then show ?case by simp
next
  case (Cons p d)
  then show ?case
    using dict_set_keys [of d k v] by (cases p) auto
qed

lemma dict_set_values: "set (dict_set d k v) \<subseteq> insert (k, v) (set d)"
  by (induction d) (auto split: if_splits)

lemma year_loop_dict:
  "year_loop a cm fs = Inr (a', m) \<Longrightarrow> distinct (map fst cm) \<Longrightarrow> distinct (map fst m)"
proof (induction fs arbitrary: a cm)
  case Nil
  then show ?case by simp
next
  case (Cons f fs)
  then show ?case
    by (auto simp: sbind_def dict_set_distinct split: sum.splits option.splits)
qed

lemma stats_loop_dict:
  "stats_loop a cm ys fs = Inr (a', m, ys') \<Longrightarrow> distinct (map fst cm) \<Longrightarrow> distinct (map fst m)"
proof (induction fs arbitrary: a cm ys)
  case Nil
  then show ?case by simp
next
  case (Cons f fs)
  obtain filename content where f: "f = (filename, content)"
    by (cases f) auto
  from Cons show ?case
    unfolding f
    by (auto simp: sbind_def Let_def dict_set_distinct split: sum.splits if_splits)
qed

lemma folders_loop_dict:
  "folders_loop a yearly_results n years = Inr (a', yearly_data, n') \<Longrightarrow>
   is_dict yearly_results \<Longrightarrow> is_dict yearly_data"
proof (induction years arbitrary: a yearly_results n)
  case Nil
  then show ?case by simp
next
  case (Cons year years)
  show ?case
  proof (cases "case child year ''Minutes'' of Some p \<Rightarrow> Some p | None \<Rightarrow> child year ''Minute''")
    case None
    with Cons show ?thesis by simp
  next
    case (Some minutes_path)
    from Cons.prems(1) Some obtain a1 year_results ys where
      s: "process_single_year_folder_with_stats a minutes_path = Inr (a1, year_results, ys)"
      and l: "folders_loop (a1\<lparr>meeting_stats := dict_set (meeting_stats a1) (node_name year) ys\<rparr>)
                (dict_set yearly_results (node_name year) year_results)
                (n + total_meetings ys) years = Inr (a', yearly_data, n')"
      by (auto simp: sbind_def split: sum.splits)
    from s have "distinct (map fst year_results)"
      by (auto simp: process_single_year_folder_with_stats_def Let_def dest: stats_loop_dict)
    with Cons.prems(2) have "is_dict (dict_set yearly_results (node_name year) year_results)"
      using dict_set_values [of yearly_results "node_name year" year_results]
      by (auto simp: is_dict_def dict_set_distinct list_all_iff)
    with l show ?thesis
      by (rule Cons.IH)
  qed
qed

lemma process_folder_dict:
  "process_folder a root = Inr (a', yearly_data) \<Longrightarrow> is_dict yearly_data"
proof -
  assume p: "process_folder a root = Inr (a', yearly_data)"
  then obtain n items where r: "root = Some (Dir n items)"
    by (auto simp: process_folder_def split: option.splits node.splits)
  let ?a0 = "a\<lparr>meeting_stats := []\<rparr>"
  show ?thesis
  proof (cases "yearly_folders items = []")
    case True
    with p r obtain a1 m where "year_loop ?a0 [] (walk_pdfs (Dir n items)) = Inr (a1, m)"
      and "yearly_data = [(''All Files'', m)]"
      by (auto simp: process_folder_def Let_def process_single_year_folder_def sbind_def
          split: sum.splits simp del: walk_pdfs.simps)
    then show ?thesis
      by (auto simp: is_dict_def dest: year_loop_dict)
  next
    case False
    with p r obtain a1 t where "folders_loop ?a0 [] 0 (yearly_folders items) = Inr (a1, yearly_data, t)"
      by (auto simp: process_folder_def Let_def sbind_def split: sum.splits)
    then show ?thesis
      by (rule folders_loop_dict) (simp add: is_dict_def)
  qed
qed

text \<open>
  C8. The CSV export is a lossless serialization. For every year-to-date-to-count
  mapping, the text written starts with the header line
  \<^verbatim>\<open>Academic_Year,Date,Comment_Count\<close>; reading it back gives the header row and then
  the rows written, each with its year, its date and its count; and the set of
  (year, date, count) triples read back is exactly the set of triples of the mapping.
  Every mapping that the aggregator returns is a dictionary of dictionaries, and for
  such a mapping the rows are in strictly increasing order by year and then by date
  string, no row is written twice, and there are as many rows as triples: one row per
  triple.
\<close>

theorem csv_round_trip:
  "take 34 (export_to_csv yearly_data) = ''Academic_Year,Date,Comment_Count'' @ [cr, nl] \<and>
   read_csv (export_to_csv yearly_data) = csv_header # map data_row (export_rows yearly_data) \<and>
   reparse (export_to_csv yearly_data) =
     map (\<lambda>(year, date, count). Some (year, date, int count)) (export_rows yearly_data) \<and>
   set (reparse (export_to_csv yearly_data)) =
     (\<lambda>(year, date, count). Some (year, date, int count)) ` triples yearly_data \<and>
   sorted (map fst (export_rows yearly_data)) \<and>
   (process_folder a root = Inr (a', yearly_data) \<longrightarrow> is_dict yearly_data) \<and>
   (is_dict yearly_data \<longrightarrow>
      sorted_wrt year_then_date (export_rows yearly_data) \<and>
      distinct (export_rows yearly_data) \<and>
      distinct (reparse (export_to_csv yearly_data)) \<and>
      length (reparse (export_to_csv yearly_data)) = card (triples yearly_data))"
proof (intro conjI impI)
  show "take 34 (export_to_csv yearly_data) = ''Academic_Year,Date,Comment_Count'' @ [cr, nl]"
    by (rule header_text)
  show "read_csv (export_to_csv yearly_data) = csv_header # map data_row (export_rows yearly_data)"
    by (rule read_export)
  show "reparse (export_to_csv yearly_data) =
      map (\<lambda>(year, date, count). Some (year, date, int count)) (export_rows yearly_data)"
    by (rule reparse_export)
  show "set (reparse (export_to_csv yearly_data)) =
      (\<lambda>(year, date, count). Some (year, date, int count)) ` triples yearly_data"
    by (simp add: reparse_export set_export_rows [symmetric])
  show "sorted (map fst (export_rows yearly_data))"
    by (rule export_rows_sorted)
  show "is_dict yearly_data" if "process_folder a root = Inr (a', yearly_data)"
    using that by (rule process_folder_dict)
next
  assume d: "is_dict yearly_data"
  then show o: "sorted_wrt year_then_date (export_rows yearly_data)"
    by (rule export_rows_ordered)
  then show r: "distinct (export_rows yearly_data)"
    by (rule ordered_distinct)
  have "inj_on (\<lambda>(year, date, count). Some (year, date, int count)) (set (export_rows yearly_data))"
    by (auto simp: inj_on_def)
  with r show "distinct (reparse (export_to_csv yearly_data))"
    unfolding reparse_export by (simp only: distinct_map simp_thms)
  from d show "length (reparse (export_to_csv yearly_data)) = card (triples yearly_data)"
    by (simp add: reparse_export export_rows_count)
qed

theorem csv_round_trip_witness:
  "run_yearly (Some two_years_root) = Some two_years_data \<and>
   is_dict two_years_data \<and>
   export_rows two_years_data =
     [(old_year, ''01.02.2022'', 1), (old_year, ''10.05.2021'', 1), (''2022-2023'', ''03.04.2023'', 2)] \<and>
   sorted_wrt year_then_date (export_rows two_years_data) \<and>
   distinct (reparse (export_to_csv two_years_data)) \<and>
   length (reparse (export_to_csv two_years_data)) = card (triples two_years_data) \<and>
   set (reparse (export_to_csv two_years_data)) =
     (\<lambda>(year, date, count). Some (year, date, int count)) ` triples two_years_data"
proof -
  have r: "run_yearly (Some two_years_root) = Some two_years_data"
    by code_simp
  then obtain a' where p: "process_folder init_agent (Some two_years_root) = Inr (a', two_years_data)"
    by (auto simp: run_yearly_def split: sum.splits)
  have e: "export_rows two_years_data =
     [(old_year, ''01.02.2022'', 1), (old_year, ''10.05.2021'', 1), (''2022-2023'', ''03.04.2023'', 2)]"
    by code_simp
  from csv_round_trip [of two_years_data init_agent "Some two_years_root" a'] p r e
  show ?thesis
    by blast
qed
end
